theory Spec2Isabelle
  imports Complex_Main "HOL-Library.Multiset" "HOL-Library.AList"
begin

section \<open>Configuration (metro\_sampler/config.py)\<close>

text \<open>
  The sampling parameters are module constants of \<^verbatim>\<open>config.py\<close>, imported by
  \<^verbatim>\<open>sampler.py\<close>. They are collected in a record so that statements can range over
  every configuration; \<open>default_config\<close> holds the values of the repository.
  \<^verbatim>\<open>MIN_POPULATION_COVERAGE\<close> is the float \<^verbatim>\<open>0.5\<close>; it is kept as an exact rational.
\<close>

record config =
  RANDOM_SEED :: nat
  TARGET_SAMPLE_SIZE :: nat
  MIN_SAMPLE_SIZE :: nat
  MAX_SAMPLE_SIZE :: nat
  TOP_N_MANDATORY :: nat
  MIN_POPULATION_COVERAGE :: rat


section \<open>Rows of the MSA frame\<close>

text \<open>
  A row of the merged frame handed to \<^verbatim>\<open>select_sample\<close>. Only the columns the sampler
  reads are kept. A data frame is the list of its rows, in index order. The branch of
  \<^verbatim>\<open>assign_strata\<close> that adds a missing \<^verbatim>\<open>has_rail\<close> or \<^verbatim>\<open>has_shared_mobility\<close>
  column filled with \<^verbatim>\<open>False\<close> is a frame whose rows all carry \<open>False\<close> there.
\<close>

record msa =
  cbsa_code :: string
  msa_name :: string
  population :: nat
  census_region :: string
  has_rail :: bool
  has_shared_mobility :: bool

text \<open>The frame after \<^verbatim>\<open>assign_strata\<close>: the four stratum columns are added.\<close>

record smsa = msa +
  pop_stratum :: string
  rail_stratum :: string
  sm_stratum :: string
  stratum :: string

text \<open>
  \<^verbatim>\<open>selection_method\<close> takes the three strings \<^verbatim>\<open>"mandatory_top10"\<close>,
  \<^verbatim>\<open>"stratified_random"\<close> and \<^verbatim>\<open>"coverage_boost"\<close>.
\<close>

datatype selection = Mandatory_top10 | Stratified_random | Coverage_boost

record tagged =
  row :: smsa
  selection_method :: selection

record sample_row =
  srow :: smsa
  smethod :: selection
  sample_weight :: rat

section \<open>Stratification (assign\_strata)\<close>

text \<open>
  \<^verbatim>\<open>_pop_stratum\<close> walks \<^verbatim>\<open>POP_STRATA\<close> in insertion order (Mega, Large, Medium, Small)
  and returns the first label with \<^verbatim>\<open>lo <= pop < hi\<close>; the fall-through is \<^verbatim>\<open>"Small"\<close>.
\<close>

definition POP_STRATA :: "(string \<times> nat \<times> nat option) list" where
  "POP_STRATA =
     [(''Mega'', 5000000, None),
      (''Large'', 1000000, Some 5000000),
      (''Medium'', 500000, Some 1000000),
      (''Small'', 0, Some 500000)]"

fun first_stratum :: "(string \<times> nat \<times> nat option) list \<Rightarrow> nat \<Rightarrow> string" where
  "first_stratum [] pop = ''Small''"
| "first_stratum ((label, lo, hi) # rest) pop =
     (if lo \<le> pop \<and> (case hi of None \<Rightarrow> True | Some h \<Rightarrow> pop < h) then label
      else first_stratum rest pop)"

definition pop_stratum_of :: "nat \<Rightarrow> string" where
  "pop_stratum_of pop = first_stratum POP_STRATA pop"

definition assign_row :: "msa \<Rightarrow> smsa" where
  "assign_row r =
     (let ps = pop_stratum_of (population r);
          rs = (if has_rail r then ''Rail'' else ''NoRail'');
          ss = (if has_shared_mobility r then ''SM'' else ''NoSM'')
      in msa.extend r
           \<lparr>pop_stratum = ps, rail_stratum = rs, sm_stratum = ss,
            stratum = ps @ ''_'' @ rs @ ''_'' @ ss @ ''_'' @ census_region r\<rparr>)"

definition assign_strata :: "msa list \<Rightarrow> smsa list" where
  "assign_strata msa_df = map assign_row msa_df"

section \<open>Allocation of the sample slots (select\_sample, steps 1 and 2)\<close>

definition mandatory_rows :: "config \<Rightarrow> msa list \<Rightarrow> smsa list" where
  "mandatory_rows cfg msa_df = take (TOP_N_MANDATORY cfg) (assign_strata msa_df)"

definition mandatory :: "config \<Rightarrow> msa list \<Rightarrow> tagged list" where
  "mandatory cfg msa_df =
     map (\<lambda>r. \<lparr>row = r, selection_method = Mandatory_top10\<rparr>) (mandatory_rows cfg msa_df)"

definition remaining_pool :: "config \<Rightarrow> msa list \<Rightarrow> smsa list" where
  "remaining_pool cfg msa_df = drop (TOP_N_MANDATORY cfg) (assign_strata msa_df)"

definition slots_left :: "config \<Rightarrow> msa list \<Rightarrow> int" where
  "slots_left cfg msa_df = int (TARGET_SAMPLE_SIZE cfg) - int (length (mandatory cfg msa_df))"

text \<open>
  \<^verbatim>\<open>Series.value_counts().to_dict()\<close>: one entry per distinct value, most frequent first.
  Values of equal frequency are kept in order of first appearance here (pandas' order among
  ties is a property of its sort); no result below depends on the order among ties.
\<close>

definition value_counts :: "string list \<Rightarrow> (string \<times> nat) list" where
  "value_counts xs =
     sort_key (\<lambda>(s, c). - int c)
       (map (\<lambda>s. (s, length (filter (\<lambda>x. x = s) xs))) (rev (remdups (rev xs))))"

definition stratum_counts :: "config \<Rightarrow> msa list \<Rightarrow> (string \<times> nat) list" where
  "stratum_counts cfg msa_df = value_counts (map stratum (remaining_pool cfg msa_df))"

text \<open>
  Python's \<^verbatim>\<open>round(a / b)\<close> for integers \<^verbatim>\<open>a\<close> and \<^verbatim>\<open>b > 0\<close>: the nearest integer, a
  tie going to the even neighbour. The quotient is taken exactly (the float quotient of
  integers of this size rounds to the same integer).
\<close>

definition py_round_div :: "int \<Rightarrow> int \<Rightarrow> int" where
  "py_round_div a b =
     (let q = a div b; r = a mod b
      in if 2 * r < b then q else if b < 2 * r then q + 1
         else if even q then q else q + 1)"

definition initial_allocation :: "int \<Rightarrow> (string \<times> nat) list \<Rightarrow> nat \<Rightarrow> (string \<times> int) list" where
  "initial_allocation sl counts n_remaining =
     map (\<lambda>(s, count).
            let raw = py_round_div (sl * int count) (int n_remaining);
                raw = (if int (length counts) \<le> sl then max 1 raw else raw)
            in (s, min (int count) (max 0 raw)))
         counts"

text \<open>
  The allocation dictionary is an association list in insertion order. Every key that is
  read is a key of the dictionary, so the \<^verbatim>\<open>KeyError\<close> branch of a read is never taken.
\<close>

definition lookup :: "(string \<times> int) list \<Rightarrow> string \<Rightarrow> int" where
  "lookup al s = (case map_of al s of Some v \<Rightarrow> v | None \<Rightarrow> 0)"

definition alloc_total :: "(string \<times> int) list \<Rightarrow> int" where
  "alloc_total al = sum_list (map snd al)"

definition count_of :: "(string \<times> nat) list \<Rightarrow> string \<Rightarrow> int" where
  "count_of counts s = (case map_of counts s of Some c \<Rightarrow> int c | None \<Rightarrow> 0)"

text \<open>
  One pass over the over-allocated dictionary: the keys, largest allocation first
  (\<^verbatim>\<open>sorted\<close> is stable, also with \<^verbatim>\<open>reverse=True\<close>), each decremented while the sum is
  above \<open>sl\<close>.
\<close>

fun remove_pass :: "int \<Rightarrow> string list \<Rightarrow> (string \<times> int) list \<Rightarrow> (string \<times> int) list" where
  "remove_pass sl [] al = al"
| "remove_pass sl (s # cs) al =
     remove_pass sl cs
       (if lookup al s > 0 \<and> alloc_total al > sl then AList.update s (lookup al s - 1) al else al)"

definition remove_candidates :: "(string \<times> int) list \<Rightarrow> string list" where
  "remove_candidates al = sort_key (\<lambda>s. - lookup al s) (map fst al)"

text \<open>
  One pass over the under-allocated dictionary: the strata with room, most room first,
  each incremented until the sum reaches \<open>sl\<close>.
\<close>

fun add_pass :: "int \<Rightarrow> (string \<times> int) list \<Rightarrow> (string \<times> int) list \<Rightarrow> (string \<times> int) list" where
  "add_pass sl [] al = al"
| "add_pass sl ((s, room) # cs) al =
     (if alloc_total al \<ge> sl then al else add_pass sl cs (AList.update s (lookup al s + 1) al))"

definition add_candidates :: "(string \<times> nat) list \<Rightarrow> (string \<times> int) list \<Rightarrow> (string \<times> int) list" where
  "add_candidates counts al =
     sort_key (\<lambda>(s, room). - room)
       (map (\<lambda>s. (s, count_of counts s - lookup al s))
          (filter (\<lambda>s. lookup al s < count_of counts s) (map fst al)))"

text \<open>The loop \<^verbatim>\<open>for _ in range(100)\<close>, the first argument counting the iterations left.\<close>

fun rebalance :: "nat \<Rightarrow> int \<Rightarrow> (string \<times> nat) list \<Rightarrow> (string \<times> int) list \<Rightarrow> (string \<times> int) list" where
  "rebalance 0 sl counts al = al"
| "rebalance (Suc k) sl counts al =
     (if alloc_total al = sl then al
      else if alloc_total al > sl then
        rebalance k sl counts (remove_pass sl (remove_candidates al) al)
      else
        (let candidates = add_candidates counts al
         in if candidates = [] then al
            else rebalance k sl counts (add_pass sl candidates al)))"

definition allocation :: "config \<Rightarrow> msa list \<Rightarrow> (string \<times> int) list" where
  "allocation cfg msa_df =
     (let counts = stratum_counts cfg msa_df;
          sl = slots_left cfg msa_df
      in rebalance 100 sl counts
           (initial_allocation sl counts (length (remaining_pool cfg msa_df))))"

section \<open>Random draws, coverage top-up and weights (select\_sample, steps 2 to 5)\<close>

text \<open>
  The random generator of numpy and the sampler of pandas are library code outside the
  repository; the model takes them as parameters, with the interface the code calls.
  Both can be called with or without a seed. Called without one they read state that is
  not an argument of \<^verbatim>\<open>select_sample\<close>: the entropy of the operating system for
  \<^verbatim>\<open>np.random.default_rng()\<close>, numpy's global generator for \<^verbatim>\<open>DataFrame.sample()\<close>. That
  state is the \<open>ambient\<close> state of a run; every library call of a run is given it.
  \<^item> \<open>rng_integers w seed k\<close> is the value of the \<open>k\<close>-th call (counting from 0) of
    \<^verbatim>\<open>rng.integers(1e9)\<close> on the generator \<^verbatim>\<open>np.random.default_rng(seed)\<close>, \<open>None\<close> standing
    for a missing seed. The generator is created afresh in every call of \<^verbatim>\<open>select_sample\<close>;
    its state is the number of calls made.
  \<^item> \<open>pd_sample w random_state n pool\<close> is \<^verbatim>\<open>pool.sample(n=n, random_state=random_state)\<close>,
    \<open>None\<close> standing for a missing \<^verbatim>\<open>random_state\<close>.
\<close>

type_synonym ambient = nat

record library =
  rng_integers :: "ambient \<Rightarrow> nat option \<Rightarrow> nat \<Rightarrow> nat"
  pd_sample :: "ambient \<Rightarrow> nat option \<Rightarrow> nat \<Rightarrow> smsa list \<Rightarrow> smsa list"

text \<open>
  The loop over \<^verbatim>\<open>allocation.items()\<close>, with \<^verbatim>\<open>rng = np.random.default_rng(seed)\<close>. The
  argument \<open>k\<close> is the number of calls of \<^verbatim>\<open>rng.integers\<close> made so far: a stratum with
  nothing to pick makes no call. Each pick passes the integer drawn as \<^verbatim>\<open>random_state\<close>.
\<close>

fun draw_strata :: "library \<Rightarrow> ambient \<Rightarrow> nat \<Rightarrow> nat \<Rightarrow> smsa list \<Rightarrow> (string \<times> int) list \<Rightarrow> smsa list list" where
  "draw_strata lib w seed k pool_all [] = []"
| "draw_strata lib w seed k pool_all ((s, n_pick) # rest) =
     (let pool = filter (\<lambda>r. stratum r = s) pool_all;
          n_pick = min n_pick (int (length pool))
      in if n_pick > 0 then
           pd_sample lib w (Some (rng_integers lib w (Some seed) k)) (nat n_pick) pool
             # draw_strata lib w seed (Suc k) pool_all rest
         else draw_strata lib w seed k pool_all rest)"

definition sampled_parts :: "library \<Rightarrow> ambient \<Rightarrow> config \<Rightarrow> msa list \<Rightarrow> smsa list list" where
  "sampled_parts lib w cfg msa_df =
     draw_strata lib w (RANDOM_SEED cfg) 0 (remaining_pool cfg msa_df) (allocation cfg msa_df)"

definition sampled :: "library \<Rightarrow> ambient \<Rightarrow> config \<Rightarrow> msa list \<Rightarrow> tagged list" where
  "sampled lib w cfg msa_df =
     map (\<lambda>r. \<lparr>row = r, selection_method = Stratified_random\<rparr>)
       (concat (sampled_parts lib w cfg msa_df))"

definition combined :: "library \<Rightarrow> ambient \<Rightarrow> config \<Rightarrow> msa list \<Rightarrow> tagged list" where
  "combined lib w cfg msa_df = mandatory cfg msa_df @ sampled lib w cfg msa_df"

text \<open>
  Coverage is \<^verbatim>\<open>sample["population"].sum() / total_pop\<close>, compared with
  \<^verbatim>\<open>MIN_POPULATION_COVERAGE\<close>. The quotient is taken exactly. With a total of 0 the numpy
  quotient is \<^verbatim>\<open>nan\<close> and both comparisons are false.
\<close>

definition pop_sum :: "tagged list \<Rightarrow> nat" where
  "pop_sum sample = sum_list (map (\<lambda>t. population (row t)) sample)"

definition total_pop :: "msa list \<Rightarrow> nat" where
  "total_pop msa_df = sum_list (map population (assign_strata msa_df))"

definition coverage_below :: "config \<Rightarrow> nat \<Rightarrow> nat \<Rightarrow> bool" where
  "coverage_below cfg s t \<longleftrightarrow> t \<noteq> 0 \<and> of_nat s / of_nat t < MIN_POPULATION_COVERAGE cfg"

definition coverage_reached :: "config \<Rightarrow> nat \<Rightarrow> nat \<Rightarrow> bool" where
  "coverage_reached cfg s t \<longleftrightarrow> t \<noteq> 0 \<and> of_nat s / of_nat t \<ge> MIN_POPULATION_COVERAGE cfg"

text \<open>
  The rows outside the sample, largest population first. Rows of equal population are kept
  in frame order here (the order pandas gives them is a property of its sort).
\<close>

definition needed :: "msa list \<Rightarrow> tagged list \<Rightarrow> smsa list" where
  "needed msa_df sample =
     sort_key (\<lambda>r. - int (population r))
       (filter (\<lambda>r. cbsa_code r \<notin> set (map (\<lambda>t. cbsa_code (row t)) sample))
          (assign_strata msa_df))"

fun add_metros :: "config \<Rightarrow> nat \<Rightarrow> smsa list \<Rightarrow> tagged list \<Rightarrow> tagged list" where
  "add_metros cfg tot [] sample = sample"
| "add_metros cfg tot (r # rest) sample =
     (if length sample \<ge> MAX_SAMPLE_SIZE cfg then sample
      else
        (let sample' = sample @ [\<lparr>row = r, selection_method = Coverage_boost\<rparr>]
         in if coverage_reached cfg (pop_sum sample') tot then sample'
            else add_metros cfg tot rest sample'))"

definition coverage_topup :: "config \<Rightarrow> msa list \<Rightarrow> tagged list \<Rightarrow> tagged list" where
  "coverage_topup cfg msa_df sample =
     (if coverage_below cfg (pop_sum sample) (total_pop msa_df)
      then add_metros cfg (total_pop msa_df) (needed msa_df sample) sample
      else sample)"

text \<open>\<^verbatim>\<open>d.get(s, 1)\<close> on a dictionary of counts.\<close>

definition get_count :: "(string \<times> nat) list \<Rightarrow> string \<Rightarrow> nat" where
  "get_count counts s = (case map_of counts s of Some c \<Rightarrow> c | None \<Rightarrow> 1)"

definition weigh :: "msa list \<Rightarrow> tagged list \<Rightarrow> tagged \<Rightarrow> sample_row" where
  "weigh msa_df sample t =
     (let stratum_N = value_counts (map stratum (assign_strata msa_df));
          stratum_n = value_counts (map (\<lambda>u. stratum (row u)) sample);
          w = of_nat (get_count stratum_N (stratum (row t)))
                / of_nat (get_count stratum_n (stratum (row t)))
      in \<lparr>srow = row t, smethod = selection_method t,
          sample_weight = (if selection_method t = Mandatory_top10 then 1 else w)\<rparr>)"

definition select_sample :: "library \<Rightarrow> ambient \<Rightarrow> config \<Rightarrow> msa list \<Rightarrow> sample_row list" where
  "select_sample lib w cfg msa_df =
     (let sample = coverage_topup cfg msa_df (combined lib w cfg msa_df)
      in sort_key (\<lambda>r. - int (population (srow r))) (map (weigh msa_df sample) sample))"

section \<open>Region resolver (metro\_sampler/data\_ntd.py)\<close>

text \<open>
  Names are strings, lists of characters. The model covers ASCII text: \<open>lower\<close> and \<open>upper\<close>
  change the letters A to Z and a to z only, and white space is what \<^verbatim>\<open>str.isspace\<close> and the
  regular expression \<^verbatim>\<open>\s\<close> accept among the ASCII characters (tab, line feed, vertical tab,
  form feed, carriage return, the separators 0x1C to 0x1F, and the space).
\<close>

definition is_space :: "char \<Rightarrow> bool" where
  "is_space c \<longleftrightarrow>
     c \<in> set [CHR 0x09, CHR 0x0A, CHR 0x0B, CHR 0x0C, CHR 0x0D,
              CHR 0x1C, CHR 0x1D, CHR 0x1E, CHR 0x1F, CHR '' '']"

definition strip :: "string \<Rightarrow> string" where
  "strip s = rev (dropWhile is_space (rev (dropWhile is_space s)))"

definition lower :: "string \<Rightarrow> string" where
  "lower s =
     map (\<lambda>c. case map_of (zip ''ABCDEFGHIJKLMNOPQRSTUVWXYZ'' ''abcdefghijklmnopqrstuvwxyz'') c of
                 Some d \<Rightarrow> d | None \<Rightarrow> c) s"

definition upper :: "string \<Rightarrow> string" where
  "upper s =
     map (\<lambda>c. case map_of (zip ''abcdefghijklmnopqrstuvwxyz'' ''ABCDEFGHIJKLMNOPQRSTUVWXYZ'') c of
                 Some d \<Rightarrow> d | None \<Rightarrow> c) s"

text \<open>\<^verbatim>\<open>sub in s\<close> for strings.\<close>

fun contains :: "string \<Rightarrow> string \<Rightarrow> bool" where
  "contains sub [] \<longleftrightarrow> sub = []"
| "contains sub (c # cs) \<longleftrightarrow> take (length sub) (c # cs) = sub \<or> contains sub cs"

text \<open>
  Splitting at every character that satisfies \<open>sep\<close>: \<^verbatim>\<open>s.split(",")\<close> and
  \<^verbatim>\<open>re.split(r"[-/]", s)\<close>. Empty pieces are kept; the result is never empty.
\<close>

fun cons_head :: "char \<Rightarrow> string list \<Rightarrow> string list" where
  "cons_head c [] = [[c]]"
| "cons_head c (t # ts) = (c # t) # ts"

fun split_on :: "(char \<Rightarrow> bool) \<Rightarrow> string \<Rightarrow> string list" where
  "split_on sep [] = [[]]"
| "split_on sep (c # cs) = (if sep c then [] # split_on sep cs else cons_head c (split_on sep cs))"

definition hyphen_or_slash :: "char \<Rightarrow> bool" where
  "hyphen_or_slash c \<longleftrightarrow> c = CHR ''-'' \<or> c = CHR ''/''"

text \<open>
  \<^verbatim>\<open>re.split(r"--|/", s)\<close>: the separators are a double hyphen and a slash, found from left
  to right; a single hyphen is part of a piece.
\<close>

fun split_uza :: "string \<Rightarrow> string list" where
  "split_uza [] = [[]]"
| "split_uza [c] = (if c = CHR ''/'' then [[], []] else [[c]])"
| "split_uza (c # d # cs) =
     (if c = CHR ''-'' \<and> d = CHR ''-'' then [] # split_uza cs
      else if c = CHR ''/'' then [] # split_uza (d # cs)
      else cons_head c (split_uza (d # cs)))"

text \<open>
  \<^verbatim>\<open>re.sub(r"\s*Metro(politan)?\s*Area$", "", name)\<close>. The pattern is anchored at the end of
  the string, where \<^verbatim>\<open>$\<close> also matches just before a final line feed. Read from the end:
  \<^verbatim>\<open>Area\<close>, the white space before it, \<^verbatim>\<open>Metro\<close> or \<^verbatim>\<open>Metropolitan\<close>, and all the white
  space before that (the match is the leftmost one). Without a match the name is unchanged.
\<close>

definition strip_metro_area :: "string \<Rightarrow> string" where
  "strip_metro_area name =
     (let r = rev name;
          (nl, r1) = (if r \<noteq> [] \<and> hd r = CHR 0x0A \<and> take 4 (tl r) = rev ''Area''
                      then ([CHR 0x0A], tl r) else ([], r))
      in if take 4 r1 \<noteq> rev ''Area'' then name
         else
           (let r2 = dropWhile is_space (drop 4 r1);
                r3 = (if take 7 r2 = rev ''politan'' then drop 7 r2 else r2)
            in if take 5 r3 \<noteq> rev ''Metro'' then name
               else rev (dropWhile is_space (drop 5 r3)) @ nl))"

text \<open>
  Both \<^verbatim>\<open>_parse_msa\<close> and \<^verbatim>\<open>_uza_to_cbsa\<close> split a name at its commas
  (\<^verbatim>\<open>parts = name.split(",")\<close>) and take \<^verbatim>\<open>parts[0].strip()\<close> as the city part and
  \<^verbatim>\<open>parts[1].strip() if len(parts) > 1 else ""\<close> as the state part.
\<close>

definition city_part :: "string \<Rightarrow> string" where
  "city_part name = strip (hd (split_on (\<lambda>c. c = CHR '','') name))"

definition state_part :: "string \<Rightarrow> string" where
  "state_part name =
     (let parts = split_on (\<lambda>c. c = CHR '','') name
      in if length parts > 1 then strip (parts ! 1) else [])"

text \<open>
  \<^verbatim>\<open>_parse_msa\<close>: the lower-case city tokens and the upper-case state tokens of a Census
  name, after the removal of the suffix.
\<close>

definition parse_msa :: "string \<Rightarrow> string list \<times> string list" where
  "parse_msa name =
     (let clean = strip_metro_area name
      in (map (\<lambda>c. lower (strip c)) (split_on hyphen_or_slash (city_part clean)),
          map (\<lambda>s. upper (strip s)) (split_on hyphen_or_slash (state_part clean))))"

text \<open>
  The three tables of \<^verbatim>\<open>_build_uza_cbsa_map\<close>: \<^verbatim>\<open>city_state_idx\<close>, \<^verbatim>\<open>city_only\<close> and
  \<^verbatim>\<open>city_ambig\<close>. The cache keeps the first two.
\<close>

record index =
  city_state :: "string \<times> string \<rightharpoonup> string"
  city_only :: "string \<rightharpoonup> string"
  city_ambig :: "string set"

definition empty_index :: index where
  "empty_index = \<lparr>city_state = Map.empty, city_only = Map.empty, city_ambig = {}\<rparr>"

text \<open>\<^verbatim>\<open>d.setdefault(k, v)\<close>, for its effect on the dictionary.\<close>

definition setdefault :: "'k \<Rightarrow> 'v \<Rightarrow> ('k \<rightharpoonup> 'v) \<Rightarrow> ('k \<rightharpoonup> 'v)" where
  "setdefault k v m = (case m k of Some u \<Rightarrow> m | None \<Rightarrow> m(k \<mapsto> v))"

text \<open>The body of the loop \<^verbatim>\<open>for city in cities\<close>, for a row with the given states and id.\<close>

definition add_city :: "string list \<Rightarrow> string \<Rightarrow> string \<Rightarrow> index \<Rightarrow> index" where
  "add_city states cbsa city idx =
     (let idx = idx\<lparr>city_state := fold (\<lambda>state. setdefault (city, state) cbsa) states (city_state idx)\<rparr>
      in if city \<in> city_ambig idx then idx
         else if (case city_only idx city of Some v \<Rightarrow> v \<noteq> cbsa | None \<Rightarrow> False)
         then idx\<lparr>city_ambig := insert city (city_ambig idx),
                  city_only := (city_only idx)(city := None)\<rparr>
         else idx\<lparr>city_only := (city_only idx)(city \<mapsto> cbsa)\<rparr>)"

definition add_row :: "string \<times> string \<Rightarrow> index \<Rightarrow> index" where
  "add_row r idx =
     (let (cities, states) = parse_msa (fst r) in fold (add_city states (snd r)) cities idx)"

text \<open>
  The rows of the Census table that the index is built from: those whose name contains
  \<^verbatim>\<open>Metro\<close> in any case. A row is a name and an id.
\<close>

definition metro_rows :: "(string \<times> string) list \<Rightarrow> (string \<times> string) list" where
  "metro_rows census = filter (\<lambda>r. contains ''metro'' (lower (fst r))) census"

definition build_index :: "(string \<times> string) list \<Rightarrow> index" where
  "build_index census = fold add_row (metro_rows census) empty_index"

text \<open>
  The first key of a list whose value in the dictionary is a non-empty string
  (\<^verbatim>\<open>cbsa = d.get(k)\<close>, \<^verbatim>\<open>if cbsa: return cbsa\<close>).
\<close>

fun first_hit :: "('k \<rightharpoonup> string) \<Rightarrow> 'k list \<Rightarrow> string option" where
  "first_hit m [] = None"
| "first_hit m (k # ks) =
     (case m k of
        Some v \<Rightarrow> (if v \<noteq> [] then Some v else first_hit m ks)
      | None \<Rightarrow> first_hit m ks)"

text \<open>
  The city tokens and the state tokens that \<^verbatim>\<open>_uza_to_cbsa\<close> reads from a name: the city
  part is split at double hyphens and slashes, the state part at hyphens and slashes, and
  state tokens that are empty after stripping are dropped.
\<close>

definition uza_cities :: "string \<Rightarrow> string list" where
  "uza_cities uza_name = map (\<lambda>c. lower (strip c)) (split_uza (city_part uza_name))"

definition uza_states :: "string \<Rightarrow> string list" where
  "uza_states uza_name =
     map upper (filter (\<lambda>s. s \<noteq> []) (map strip (split_on hyphen_or_slash (state_part uza_name))))"

text \<open>
  \<^verbatim>\<open>_uza_to_cbsa\<close>. The first argument is the cache: \<open>None\<close> is the empty dictionary left by
  a failed download, for which the result is the empty string. The empty name stands for the
  empty string and for a missing value, which the code treats alike.
\<close>

definition uza_to_cbsa :: "index option \<Rightarrow> string \<Rightarrow> string" where
  "uza_to_cbsa cache uza_name =
     (if uza_name = [] then []
      else if contains ''non-uza'' (lower uza_name) then []
      else case cache of
        None \<Rightarrow> []
      | Some idx \<Rightarrow>
          (case first_hit (city_state idx) (List.product (uza_cities uza_name) (uza_states uza_name)) of
             Some cbsa \<Rightarrow> cbsa
           | None \<Rightarrow>
               (case first_hit (city_only idx) (uza_cities uza_name) of
                  Some cbsa \<Rightarrow> cbsa
                | None \<Rightarrow> [])))"

text \<open>
  The city tokens in the order the two loops of \<^verbatim>\<open>_build_uza_cbsa_map\<close> visit them
  (\<^verbatim>\<open>for row\<close>, \<^verbatim>\<open>for city in cities\<close>), each with the state tokens and the id of its row;
  and the ids of the rows from whose name a given city token is extracted, in that order.
\<close>

definition city_events :: "(string \<times> string) list \<Rightarrow> (string \<times> string list \<times> string) list" where
  "city_events census =
     concat (map (\<lambda>r. map (\<lambda>city. (city, snd (parse_msa (fst r)), snd r)) (fst (parse_msa (fst r))))
       (metro_rows census))"

definition city_ids :: "(string \<times> string) list \<Rightarrow> string \<Rightarrow> string list" where
  "city_ids census city =
     map (\<lambda>e. snd (snd e)) (filter (\<lambda>e. fst e = city) (city_events census))"

definition add_event :: "string \<times> string list \<times> string \<Rightarrow> index \<Rightarrow> index" where
  "add_event e idx = add_city (fst (snd e)) (snd (snd e)) (fst e) idx"

definition all_same :: "string list \<Rightarrow> bool" where
  "all_same ids \<longleftrightarrow> (\<forall>a \<in> set ids. a = hd ids)"

text \<open>A small Census table: two regions share the city token \<open>springfield\<close>.\<close>

definition example_census :: "(string \<times> string) list" where
  "example_census =
     [(''Springfield, MA Metro Area'', ''44140''),
      (''Pittsburgh, PA Metro Area'', ''38300''),
      (''Springfield, MO Metro Area'', ''44180'')]"

text \<open>
  The keys that a row of the Census table enters in \<^verbatim>\<open>city_state_idx\<close>, and the first key
  that \<^verbatim>\<open>_uza_to_cbsa\<close> probes for a name.
\<close>

definition row_keys :: "string \<Rightarrow> (string \<times> string) list" where
  "row_keys name = List.product (fst (parse_msa name)) (snd (parse_msa name))"

definition first_key :: "string \<Rightarrow> string \<times> string" where
  "first_key uza_name = (hd (uza_cities uza_name), hd (uza_states uza_name))"

text \<open>The Census table of one region whose name has three cities.\<close>

definition dallas_census :: "(string \<times> string) list" where
  "dallas_census = [(''Dallas-Fort Worth-Arlington, TX Metro Area'', ''19100'')]"

text \<open>A Census table of two regions that share a city and state key.\<close>

definition twin_census :: "(string \<times> string) list" where
  "twin_census =
     [(''Springfield, MA Metro Area'', ''44140''),
      (''Springfield/Holyoke, MA Metro Area'', ''99999'')]"

section \<open>Auxiliary definitions for the proofs\<close>

definition alloc_inv :: "(string \<times> nat) list \<Rightarrow> (string \<times> int) list \<Rightarrow> bool" where
  "alloc_inv counts al \<longleftrightarrow>
     map fst al = map fst counts \<and> distinct (map fst counts) \<and>
     (\<forall>t. 0 \<le> lookup al t \<and> lookup al t \<le> count_of counts t)"

definition alloc_of :: "int \<Rightarrow> nat \<Rightarrow> nat \<Rightarrow> nat \<Rightarrow> int" where
  "alloc_of sl n_strata n_remaining c =
     (let raw = py_round_div (sl * int c) (int n_remaining);
          raw = (if int n_strata \<le> sl then max 1 raw else raw)
      in min (int c) (max 0 raw))"

text \<open>
  The scenario of the specification: four regions with populations 10,000,000, 2,000,000,
  600,000 and 100,000, one mandatory region and a target of three.
\<close>

definition example_config :: config where
  "example_config = \<lparr>RANDOM_SEED = 42, TARGET_SAMPLE_SIZE = 3, MIN_SAMPLE_SIZE = 2,
      MAX_SAMPLE_SIZE = 4, TOP_N_MANDATORY = 1, MIN_POPULATION_COVERAGE = 1 / 2\<rparr>"

definition example_msa :: "string \<Rightarrow> nat \<Rightarrow> msa" where
  "example_msa c p = \<lparr>cbsa_code = c, msa_name = c, population = p, census_region = ''South'',
     has_rail = False, has_shared_mobility = False\<rparr>"

definition example_universe :: "msa list" where
  "example_universe = [example_msa ''A'' 10000000, example_msa ''B'' 2000000, example_msa ''C'' 600000, example_msa ''D'' 100000]"

section \<open>Definitions used in the statements about select\_sample\<close>




text \<open>
  What numpy and pandas document for seeded calls: a generator created from a seed, and a
  sample taken with a \<^verbatim>\<open>random_state\<close>, depend on nothing but that seed.
\<close>

definition seed_determines :: "library \<Rightarrow> bool" where
  "seed_determines lib \<longleftrightarrow>
     (\<forall>w w' seed. rng_integers lib w (Some seed) = rng_integers lib w' (Some seed)) \<and>
     (\<forall>w w' rs. pd_sample lib w (Some rs) = pd_sample lib w' (Some rs))"

text \<open>
  A concrete library behaviour for the examples. The generator counts up from its seed and
  the sampler rotates the pool by \<open>random_state\<close> and takes the first \<open>n\<close> rows; without a
  seed both use the ambient state in its place.
\<close>

definition example_library :: library where
  "example_library =
     \<lparr>rng_integers = (\<lambda>w seed k. (case seed of Some s \<Rightarrow> s | None \<Rightarrow> w) + k),
      pd_sample = (\<lambda>w random_state n pool.
         take n (rotate ((case random_state of Some rs \<Rightarrow> rs | None \<Rightarrow> w) mod length pool) pool))\<rparr>"

text \<open>A configuration with more mandatory rows than the target size.\<close>

definition bad_config :: config where
  "bad_config = \<lparr>RANDOM_SEED = 42, TARGET_SAMPLE_SIZE = 1, MIN_SAMPLE_SIZE = 1,
      MAX_SAMPLE_SIZE = 4, TOP_N_MANDATORY = 2, MIN_POPULATION_COVERAGE = 1 / 2\<rparr>"

text \<open>The rows of \<open>example_universe\<close> after \<^verbatim>\<open>assign_strata\<close>.\<close>

definition example_row :: "string \<Rightarrow> nat \<Rightarrow> string \<Rightarrow> smsa" where
  "example_row c p ps = msa.extend (example_msa c p)
     \<lparr>pop_stratum = ps, rail_stratum = ''NoRail'', sm_stratum = ''NoSM'',
      stratum = ps @ ''_NoRail_NoSM_South''\<rparr>"

text \<open>
  What pandas documents for \<^verbatim>\<open>DataFrame.sample(n=n)\<close> with the default \<^verbatim>\<open>replace=False\<close>
  and \<open>n\<close> at most the number of rows: the result has \<open>n\<close> rows, each a row of the frame,
  no row of the frame taken more often than it occurs there.
\<close>

definition sample_without_replacement :: "library \<Rightarrow> bool" where
  "sample_without_replacement lib \<longleftrightarrow>
     (\<forall>w random_state n pool. n \<le> length pool \<longrightarrow>
        length (pd_sample lib w random_state n pool) = n \<and>
        mset (pd_sample lib w random_state n pool) \<subseteq># mset pool)"

text \<open>
  A universe whose three rows after the first share one stratum (all below 500,000
  inhabitants), so that a stratum is sampled in part.
\<close>

definition one_stratum_universe :: "msa list" where
  "one_stratum_universe =
     [example_msa ''A'' 10000000, example_msa ''B'' 300000, example_msa ''C'' 200000,
      example_msa ''D'' 100000]"

text \<open>
  The sample of the top-up loop after \<open>i\<close> additions: the sample \<open>s\<close> it starts from,
  followed by the first \<open>i\<close> rows of the list \<open>ns\<close> it iterates over, tagged
  \<^verbatim>\<open>coverage_boost\<close>.
\<close>

definition topup_step :: "tagged list \<Rightarrow> smsa list \<Rightarrow> nat \<Rightarrow> tagged list" where
  "topup_step s ns i = s @ map (\<lambda>r. \<lparr>row = r, selection_method = Coverage_boost\<rparr>) (take i ns)"

text \<open>
  The top-up phase of a run: the sample after \<open>i\<close> additions, taken in the order of
  \<open>needed\<close> from the combined sample; the number of additions the phase makes; and the
  coverage of a sample, \<^verbatim>\<open>sample["population"].sum() / total_pop\<close>.
\<close>

definition sample_after :: "library \<Rightarrow> ambient \<Rightarrow> config \<Rightarrow> msa list \<Rightarrow> nat \<Rightarrow> tagged list" where
  "sample_after lib w cfg df i =
     topup_step (combined lib w cfg df) (needed df (combined lib w cfg df)) i"

definition topup_count :: "library \<Rightarrow> ambient \<Rightarrow> config \<Rightarrow> msa list \<Rightarrow> nat" where
  "topup_count lib w cfg df =
     length (coverage_topup cfg df (combined lib w cfg df)) - length (combined lib w cfg df)"

definition coverage :: "tagged list \<Rightarrow> msa list \<Rightarrow> rat" where
  "coverage s df = of_nat (pop_sum s) / of_nat (total_pop df)"

text \<open>
  A configuration whose coverage target the mandatory row of \<open>example_universe\<close> does not
  meet: one mandatory row, no random draw, and 95 % of the population to cover.
\<close>

definition coverage_config :: config where
  "coverage_config = \<lparr>RANDOM_SEED = 42, TARGET_SAMPLE_SIZE = 1, MIN_SAMPLE_SIZE = 1,
      MAX_SAMPLE_SIZE = 4, TOP_N_MANDATORY = 1, MIN_POPULATION_COVERAGE = 19 / 20\<rparr>"

text \<open>
  The rows drawn for stratum \<open>s\<close> by the draw loop run over the allocation \<open>al\<close>, and the
  number of strata of a list of allocations for which the loop makes a pick (those with
  \<^verbatim>\<open>n_pick > 0\<close> after the cap at the pool size).
\<close>

definition drawn_for :: "library \<Rightarrow> ambient \<Rightarrow> nat \<Rightarrow> smsa list \<Rightarrow> (string \<times> int) list \<Rightarrow> string \<Rightarrow> smsa list" where
  "drawn_for lib w seed pool_all al s =
     filter (\<lambda>r. stratum r = s) (concat (draw_strata lib w seed 0 pool_all al))"

definition positive_picks :: "smsa list \<Rightarrow> (string \<times> int) list \<Rightarrow> nat" where
  "positive_picks pool_all al =
     length (filter (\<lambda>(s, n_pick).
        0 < min n_pick (int (length (filter (\<lambda>r. stratum r = s) pool_all)))) al)"

text \<open>
  A pool of two strata of two rows each, and the two orders in which a loop can visit the
  strata, one row to pick from each.
\<close>

definition two_strata_pool :: "smsa list" where
  "two_strata_pool =
     [example_row ''P'' 300000 ''Small'', example_row ''Q'' 200000 ''Small'',
      example_row ''R'' 700000 ''Medium'', example_row ''S'' 600000 ''Medium'']"

definition small_first :: "(string \<times> int) list" where
  "small_first = [(''Small_NoRail_NoSM_South'', 1), (''Medium_NoRail_NoSM_South'', 1)]"

definition medium_first :: "(string \<times> int) list" where
  "medium_first = [(''Medium_NoRail_NoSM_South'', 1), (''Small_NoRail_NoSM_South'', 1)]"

section \<open>The allocation loop\<close>

lemma lookup_update: "lookup (AList.update s v al) t = (if t = s then v else lookup al t)"
  by (simp add: lookup_def update_conv')

lemma keys_update: "s \<in> set (map fst al) \<Longrightarrow> map fst (AList.update s v al) = map fst al"
  by (simp add: update_keys)

lemma lookup_notin: "s \<notin> set (map fst al) \<Longrightarrow> lookup al s = 0"
  by (simp add: lookup_def map_of_eq_None_iff[THEN iffD2])

lemma total_update:
  "distinct (map fst al) \<Longrightarrow> s \<in> set (map fst al) \<Longrightarrow>
   alloc_total (AList.update s v al) = alloc_total al - lookup al s + v"
proof (induction al)
  case Nil
  then show ?case by simp
next
  case (Cons p al)
  obtain k a where p: "p = (k, a)" by (cases p)
  show ?case
  proof (cases "k = s")
    case True
    then show ?thesis using p by (simp add: alloc_total_def lookup_def)
  next
    case False
    then have "s \<in> set (map fst al)" using Cons.prems p by auto
    moreover have "distinct (map fst al)" using Cons.prems by simp
    ultimately have "alloc_total (AList.update s v al) = alloc_total al - lookup al s + v"
      using Cons.IH by blast
    then show ?thesis using False p by (simp add: alloc_total_def lookup_def)
  qed
qed

lemma total_lookup: "distinct (map fst al) \<Longrightarrow> alloc_total al = sum_list (map (lookup al) (map fst al))"
proof (induction al)
  case Nil
  then show ?case by (simp add: alloc_total_def)
next
  case (Cons p al)
  obtain k a where p: "p = (k, a)" by (cases p)
  have "k \<notin> set (map fst al)" using Cons.prems p by simp
  then have h: "map (lookup (p # al)) (map fst al) = map (lookup al) (map fst al)"
    unfolding p by (intro map_cong) (auto simp: lookup_def)
  have ih: "alloc_total al = sum_list (map (lookup al) (map fst al))"
    using Cons by simp
  have "sum_list (map (lookup (p # al)) (map fst (p # al))) =
        lookup (p # al) k + sum_list (map (lookup (p # al)) (map fst al))"
    by (simp add: p)
  also have "\<dots> = a + alloc_total al" unfolding h ih by (simp add: p lookup_def)
  finally show ?case by (simp add: alloc_total_def p)
qed

lemma remove_pass_id: "alloc_total al \<le> sl \<Longrightarrow> remove_pass sl cs al = al"
  by (induction cs) auto

lemma remove_pass_keys: "map fst (remove_pass sl cs al) = map fst al"
proof (induction cs arbitrary: al)
  case Nil
  then show ?case by simp
next
  case (Cons s cs)
  have "lookup al s > 0 \<Longrightarrow> s \<in> set (map fst al)"
    using lookup_notin[of s al] by auto
  then show ?case using Cons by (auto simp: keys_update)
qed

lemma remove_pass_result:
  "distinct cs \<Longrightarrow> distinct (map fst al) \<Longrightarrow> \<forall>t. 0 \<le> lookup al t \<Longrightarrow> sl \<le> alloc_total al \<Longrightarrow>
   sl \<le> alloc_total (remove_pass sl cs al) \<and>
   (alloc_total (remove_pass sl cs al) = sl \<or>
    (\<forall>t. lookup (remove_pass sl cs al) t =
       (if t \<in> set cs then max 0 (lookup al t - 1) else lookup al t)))"
proof (induction cs arbitrary: al)
  case Nil
  then show ?case by simp
next
  case (Cons s cs)
  show ?case
  proof (cases "alloc_total al > sl")
    case False
    then have "alloc_total al = sl" using Cons.prems by simp
    then show ?thesis by (simp add: remove_pass_id)
  next
    case over: True
    show ?thesis
    proof (cases "lookup al s > 0")
      case True
      define al1 where "al1 = AList.update s (lookup al s - 1) al"
      have mem: "s \<in> set (map fst al)" using True lookup_notin[of s al] by auto
      have t1: "alloc_total al1 = alloc_total al - 1"
        using total_update[OF Cons.prems(2) mem, of "lookup al s - 1"] by (simp add: al1_def)
      have d1: "distinct (map fst al1)" using Cons.prems(2) mem by (simp add: al1_def keys_update)
      have l1: "\<And>t. lookup al1 t = (if t = s then lookup al s - 1 else lookup al t)"
        by (simp add: al1_def lookup_update)
      have n1: "\<forall>t. 0 \<le> lookup al1 t" using Cons.prems(3) True by (auto simp: l1)
      have "distinct cs" using Cons.prems(1) by simp
      from Cons.IH[OF this d1 n1] t1 over
      have ih: "sl \<le> alloc_total (remove_pass sl cs al1) \<and>
        (alloc_total (remove_pass sl cs al1) = sl \<or>
         (\<forall>t. lookup (remove_pass sl cs al1) t =
            (if t \<in> set cs then max 0 (lookup al1 t - 1) else lookup al1 t)))" by simp
      have eq: "remove_pass sl (s # cs) al = remove_pass sl cs al1"
        using True over by (simp add: al1_def)
      have "s \<notin> set cs" using Cons.prems(1) by simp
      then show ?thesis using ih True unfolding eq by (auto simp: l1)
    next
      case False
      then have z: "lookup al s = 0" using Cons.prems(3) by (metis order.not_eq_order_implies_strict)
      have eq: "remove_pass sl (s # cs) al = remove_pass sl cs al" using False by simp
      have "distinct cs" using Cons.prems(1) by simp
      from Cons.IH[OF this Cons.prems(2) Cons.prems(3) Cons.prems(4)]
      show ?thesis unfolding eq using z by auto
    qed
  qed
qed

lemma remove_pass_le: "\<forall>t. 0 \<le> lookup al t \<Longrightarrow>
   lookup (remove_pass sl cs al) t \<le> lookup al t \<and> 0 \<le> lookup (remove_pass sl cs al) t"
proof (induction cs arbitrary: al)
  case Nil
  then show ?case by simp
next
  case (Cons s cs)
  define al1 where "al1 = (if lookup al s > 0 \<and> alloc_total al > sl then AList.update s (lookup al s - 1) al else al)"
  have n1: "\<forall>t. 0 \<le> lookup al1 t" using Cons.prems by (auto simp: al1_def lookup_update)
  have le: "lookup al1 t \<le> lookup al t" by (auto simp: al1_def lookup_update)
  have "remove_pass sl (s # cs) al = remove_pass sl cs al1" by (simp add: al1_def)
  then show ?case using Cons.IH[OF n1] le by auto
qed

lemma remove_pass_inv:
  assumes "alloc_inv counts al"
  shows "alloc_inv counts (remove_pass sl cs al)"
proof -
  have nn: "\<forall>t. 0 \<le> lookup al t" using assms by (simp add: alloc_inv_def)
  have "0 \<le> lookup (remove_pass sl cs al) t \<and> lookup (remove_pass sl cs al) t \<le> count_of counts t" for t
  proof -
    have "lookup (remove_pass sl cs al) t \<le> lookup al t \<and> 0 \<le> lookup (remove_pass sl cs al) t"
      using remove_pass_le[OF nn] by simp
    moreover have "lookup al t \<le> count_of counts t" using assms by (simp add: alloc_inv_def)
    ultimately show ?thesis by linarith
  qed
  then show ?thesis using assms by (simp add: alloc_inv_def remove_pass_keys)
qed

lemma add_pass_inv:
  "alloc_inv counts al \<Longrightarrow> distinct (map fst cs) \<Longrightarrow>
   \<forall>s \<in> set (map fst cs). s \<in> set (map fst al) \<and> lookup al s < count_of counts s \<Longrightarrow>
   alloc_total al \<le> sl \<Longrightarrow>
   alloc_inv counts (add_pass sl cs al) \<and> alloc_total (add_pass sl cs al) \<le> sl"
proof (induction cs arbitrary: al)
  case Nil
  then show ?case by simp
next
  case (Cons p cs)
  obtain s room where p: "p = (s, room)" by (cases p)
  show ?case
  proof (cases "alloc_total al \<ge> sl")
    case True
    then show ?thesis using Cons.prems p by simp
  next
    case False
    define al1 where "al1 = AList.update s (lookup al s + 1) al"
    have mem: "s \<in> set (map fst al)" and lt: "lookup al s < count_of counts s"
      using Cons.prems(3) p by auto
    have dk: "distinct (map fst al)" using Cons.prems(1) by (simp add: alloc_inv_def)
    have k1: "map fst al1 = map fst al" using mem by (simp add: al1_def keys_update)
    have l1: "\<And>t. lookup al1 t = (if t = s then lookup al s + 1 else lookup al t)"
      by (simp add: al1_def lookup_update)
    have t1: "alloc_total al1 = alloc_total al + 1"
      using total_update[OF dk mem, of "lookup al s + 1"] by (simp add: al1_def)
    have inv1: "alloc_inv counts al1"
      using Cons.prems(1) lt unfolding alloc_inv_def k1 l1 by (auto simp: add_nonneg_nonneg)
    have sn: "s \<notin> set (map fst cs)" and dcs: "distinct (map fst cs)"
      using Cons.prems(2) p by auto
    have c1: "\<forall>u \<in> set (map fst cs). u \<in> set (map fst al1) \<and> lookup al1 u < count_of counts u"
      using Cons.prems(3) sn unfolding k1 l1 by auto
    have "alloc_total al1 \<le> sl" using False t1 by simp
    from Cons.IH[OF inv1 dcs c1 this]
    show ?thesis using False p by (simp add: al1_def)
  qed
qed

lemma add_candidates_ok:
  "distinct (map fst al) \<Longrightarrow>
   distinct (map fst (add_candidates counts al)) \<and>
   (\<forall>s \<in> set (map fst (add_candidates counts al)).
      s \<in> set (map fst al) \<and> lookup al s < count_of counts s)"
proof -
  assume d: "distinct (map fst al)"
  let ?base = "map (\<lambda>s. (s, count_of counts s - lookup al s))
          (filter (\<lambda>s. lookup al s < count_of counts s) (map fst al))"
  have m: "mset (add_candidates counts al) = mset ?base"
    by (simp add: add_candidates_def)
  have fb: "map fst ?base = filter (\<lambda>s. lookup al s < count_of counts s) (map fst al)"
    by (simp add: comp_def)
  have "mset (map fst (add_candidates counts al)) = mset (map fst ?base)"
    unfolding mset_map m ..
  then have mm: "mset (map fst (add_candidates counts al)) =
      mset (filter (\<lambda>s. lookup al s < count_of counts s) (map fst al))"
    unfolding fb .
  have "distinct (filter (\<lambda>s. lookup al s < count_of counts s) (map fst al))"
    using d by simp
  then have "distinct (map fst (add_candidates counts al))"
    using mset_eq_imp_distinct_iff[OF mm] by simp
  moreover have "set (map fst (add_candidates counts al)) =
      set (filter (\<lambda>s. lookup al s < count_of counts s) (map fst al))"
    using mset_eq_setD[OF mm] by simp
  ultimately show ?thesis by auto
qed

lemma rebalance_under:
  "alloc_inv counts al \<Longrightarrow> alloc_total al \<le> sl \<Longrightarrow>
   alloc_inv counts (rebalance n sl counts al) \<and> alloc_total (rebalance n sl counts al) \<le> sl"
proof (induction n arbitrary: al)
  case 0
  then show ?case by simp
next
  case (Suc n)
  show ?case
  proof (cases "alloc_total al = sl")
    case True
    then show ?thesis using Suc.prems by simp
  next
    case False
    then have lt: "alloc_total al < sl" using Suc.prems by simp
    show ?thesis
    proof (cases "add_candidates counts al = []")
      case True
      then show ?thesis using Suc.prems lt by simp
    next
      case ne: False
      have dk: "distinct (map fst al)" using Suc.prems(1) by (simp add: alloc_inv_def)
      from add_pass_inv[OF Suc.prems(1) _ _ Suc.prems(2)] add_candidates_ok[OF dk]
      have "alloc_inv counts (add_pass sl (add_candidates counts al) al) \<and>
            alloc_total (add_pass sl (add_candidates counts al) al) \<le> sl" by blast
      then have "alloc_inv counts (rebalance n sl counts (add_pass sl (add_candidates counts al) al)) \<and>
            alloc_total (rebalance n sl counts (add_pass sl (add_candidates counts al) al)) \<le> sl"
        using Suc.IH by blast
      then show ?thesis using lt ne by (simp add: Let_def)
    qed
  qed
qed

lemma rebalance_fix: "alloc_total al = sl \<Longrightarrow> rebalance n sl counts al = al"
  by (cases n) auto

lemma remove_candidates_perm:
  "distinct (map fst al) \<Longrightarrow> distinct (remove_candidates al) \<and> set (remove_candidates al) = set (map fst al)"
  by (simp add: remove_candidates_def)

lemma rebalance_over:
  assumes inv: "alloc_inv counts al" and over: "sl < alloc_total al"
    and dec: "sum_list (map (\<lambda>t. max 0 (lookup al t - 1)) (map fst al)) \<le> sl"
  shows "alloc_inv counts (rebalance (Suc n) sl counts al) \<and>
         alloc_total (rebalance (Suc n) sl counts al) = sl"
proof -
  let ?al1 = "remove_pass sl (remove_candidates al) al"
  have dk: "distinct (map fst al)" using inv by (simp add: alloc_inv_def)
  have nn: "\<forall>t. 0 \<le> lookup al t" using inv by (simp add: alloc_inv_def)
  have cs: "distinct (remove_candidates al)" "set (remove_candidates al) = set (map fst al)"
    using remove_candidates_perm[OF dk] by auto
  have r: "sl \<le> alloc_total ?al1 \<and> (alloc_total ?al1 = sl \<or>
      (\<forall>t. lookup ?al1 t = (if t \<in> set (remove_candidates al) then max 0 (lookup al t - 1) else lookup al t)))"
    using remove_pass_result[OF cs(1) dk nn, of sl] over by simp
  have inv1: "alloc_inv counts ?al1" using remove_pass_inv[OF inv] .
  have k1: "map fst ?al1 = map fst al" by (rule remove_pass_keys)
  have "alloc_total ?al1 = sl"
  proof (rule ccontr)
    assume ne: "alloc_total ?al1 \<noteq> sl"
    then have l: "\<forall>t. lookup ?al1 t = (if t \<in> set (map fst al) then max 0 (lookup al t - 1) else lookup al t)"
      using r cs(2) by simp
    have "alloc_total ?al1 = sum_list (map (lookup ?al1) (map fst ?al1))"
      using total_lookup[of ?al1] dk k1 by simp
    also have "\<dots> = sum_list (map (\<lambda>t. max 0 (lookup al t - 1)) (map fst al))"
      unfolding k1 using l by (intro arg_cong[where f=sum_list] map_cong) auto
    finally have "alloc_total ?al1 \<le> sl" using dec by simp
    then show False using r ne by simp
  qed
  then have "rebalance n sl counts ?al1 = ?al1" by (rule rebalance_fix)
  then have "rebalance (Suc n) sl counts al = ?al1" using over by simp
  then show ?thesis using inv1 \<open>alloc_total ?al1 = sl\<close> by simp
qed

lemma py_round_div_le: "0 < b \<Longrightarrow> py_round_div a b \<le> a div b + 1"
  by (simp add: py_round_div_def Let_def)

lemma py_round_div_ge: "0 < b \<Longrightarrow> a div b \<le> py_round_div a b"
  by (simp add: py_round_div_def Let_def)

lemma initial_allocation_alt:
  "initial_allocation sl counts N = map (\<lambda>(s, c). (s, alloc_of sl (length counts) N c)) counts"
  by (simp add: initial_allocation_def alloc_of_def Let_def)

lemma initial_keys: "map fst (initial_allocation sl counts N) = map fst counts"
  by (simp add: initial_allocation_alt comp_def case_prod_beta)

lemma map_of_map_val: "map_of (map (\<lambda>(s, c). (s, f c)) xs) t = map_option f (map_of xs t)"
  by (induction xs) auto

lemma initial_lookup:
  "lookup (initial_allocation sl counts N) t =
     (case map_of counts t of None \<Rightarrow> 0 | Some c \<Rightarrow> alloc_of sl (length counts) N c)"
  by (simp add: initial_allocation_alt lookup_def map_of_map_val split: option.splits)

lemma alloc_of_bounds: "0 \<le> alloc_of sl k N c \<and> alloc_of sl k N c \<le> int c"
  by (simp add: alloc_of_def Let_def)

lemma initial_inv: "distinct (map fst counts) \<Longrightarrow> alloc_inv counts (initial_allocation sl counts N)"
  unfolding alloc_inv_def
  by (auto simp: initial_keys initial_lookup count_of_def alloc_of_bounds split: option.splits)

lemma alloc_of_dec:
  assumes "0 \<le> sl" "0 < N"
  shows "max 0 (alloc_of sl k N c - 1) \<le> (sl * int c) div int N"
proof -
  have d: "0 \<le> (sl * int c) div int N"
    using assms by (simp add: pos_imp_zdiv_nonneg_iff)
  have "py_round_div (sl * int c) (int N) \<le> (sl * int c) div int N + 1"
    using py_round_div_le[of "int N"] assms by simp
  then show ?thesis using d by (auto simp: alloc_of_def Let_def)
qed

lemma sum_list_all_zero: "\<forall>x \<in> set xs. f x = (0::int) \<Longrightarrow> sum_list (map f xs) = 0"
  by (induction xs) auto

lemma sum_div_le:
  fixes N :: int
  assumes "0 < N"
  shows "N * sum_list (map (\<lambda>x. f x div N) xs) \<le> sum_list (map f xs)"
proof (induction xs)
  case Nil
  then show ?case by simp
next
  case (Cons x xs)
  have "N * (f x div N) + f x mod N = f x" by simp
  moreover have "0 \<le> f x mod N" using assms by simp
  ultimately have "N * (f x div N) \<le> f x" by linarith
  then show ?case using Cons by (simp add: distrib_left)
qed

lemma initial_dec_sum:
  assumes d: "distinct (map fst counts)" and sl: "0 \<le> sl"
    and N: "N = sum_list (map snd counts)"
  shows "sum_list (map (\<lambda>t. max 0 (lookup (initial_allocation sl counts N) t - 1))
            (map fst (initial_allocation sl counts N))) \<le> sl"
proof -
  let ?k = "length counts"
  have e: "map (\<lambda>t. max 0 (lookup (initial_allocation sl counts N) t - 1)) (map fst counts)
         = map (\<lambda>p. max 0 (alloc_of sl ?k N (snd p) - 1)) counts"
    unfolding map_map
  proof (rule map_cong[OF refl])
    fix p assume "p \<in> set counts"
    then have "map_of counts (fst p) = Some (snd p)"
      using d map_of_eq_Some_iff[of counts "fst p" "snd p"] by simp
    then show "((\<lambda>t. max 0 (lookup (initial_allocation sl counts N) t - 1)) \<circ> fst) p
         = max 0 (alloc_of sl ?k N (snd p) - 1)"
      by (simp add: initial_lookup)
  qed
  show ?thesis
  proof (cases "N = 0")
    case True
    then have "\<forall>p \<in> set counts. snd p = 0" using N by (auto simp: sum_list_eq_0_iff)
    then have "\<forall>p \<in> set counts. max 0 (alloc_of sl ?k N (snd p) - 1) = 0"
      using alloc_of_bounds[of sl ?k N 0] by auto
    then have "sum_list (map (\<lambda>p. max 0 (alloc_of sl ?k N (snd p) - 1)) counts) = 0"
      by (rule sum_list_all_zero)
    then show ?thesis unfolding initial_keys e using sl by simp
  next
    case False
    then have Np: "0 < int N" by simp
    have "sum_list (map (\<lambda>p. max 0 (alloc_of sl ?k N (snd p) - 1)) counts)
          \<le> sum_list (map (\<lambda>p. (sl * int (snd p)) div int N) counts)"
      by (rule sum_list_mono) (use alloc_of_dec[OF sl] False in simp)
    moreover have "int N * sum_list (map (\<lambda>p. (sl * int (snd p)) div int N) counts)
          \<le> sum_list (map (\<lambda>p. sl * int (snd p)) counts)"
      using sum_div_le[OF Np] .
    moreover have "sum_list (map (\<lambda>p. sl * int (snd p)) counts) = sl * int N"
      unfolding N by (induction counts) (simp_all add: distrib_left)
    ultimately have "int N * sum_list (map (\<lambda>p. max 0 (alloc_of sl ?k N (snd p) - 1)) counts) \<le> int N * sl"
      using Np mult_left_mono[of "sum_list (map (\<lambda>p. max 0 (alloc_of sl ?k N (snd p) - 1)) counts)"
          "sum_list (map (\<lambda>p. (sl * int (snd p)) div int N) counts)" "int N"]
      by (simp add: mult.commute)
    then have "sum_list (map (\<lambda>p. max 0 (alloc_of sl ?k N (snd p) - 1)) counts) \<le> sl"
      using Np by simp
    then show ?thesis unfolding initial_keys e .
  qed
qed

lemma rebalance_initial:
  assumes d: "distinct (map fst counts)" and sl: "0 \<le> sl"
    and N: "N = sum_list (map snd counts)"
  shows "alloc_inv counts (rebalance (Suc n) sl counts (initial_allocation sl counts N)) \<and>
         alloc_total (rebalance (Suc n) sl counts (initial_allocation sl counts N)) \<le> sl"
proof (cases "sl < alloc_total (initial_allocation sl counts N)")
  case True
  from rebalance_over[OF initial_inv[OF d] True initial_dec_sum[OF d sl N]]
  show ?thesis by simp
next
  case False
  then have "alloc_total (initial_allocation sl counts N) \<le> sl" by simp
  from rebalance_under[OF initial_inv[OF d] this] show ?thesis by blast
qed

lemma indicator_sum:
  "distinct ks \<Longrightarrow> x \<in> set ks \<Longrightarrow> sum_list (map (\<lambda>k. if x = k then (1::nat) else 0) ks) = 1"
proof (induction ks)
  case Nil
  then show ?case by simp
next
  case (Cons k ks)
  show ?case
  proof (cases "x = k")
    case True
    then have "x \<notin> set ks" using Cons.prems by simp
    then have "sum_list (map (\<lambda>k. if x = k then (1::nat) else 0) ks) = 0"
      by (simp add: sum_list_eq_0_iff) 
    then show ?thesis using True by simp
  next
    case False
    then show ?thesis using Cons by simp
  qed
qed

lemma count_filter_sum:
  "distinct ks \<Longrightarrow> set xs \<subseteq> set ks \<Longrightarrow>
   sum_list (map (\<lambda>k. length (filter (\<lambda>x. x = k) xs)) ks) = length xs"
proof (induction xs)
  case Nil
  then show ?case by simp
next
  case (Cons x xs)
  have "sum_list (map (\<lambda>k. length (filter (\<lambda>y. y = k) (x # xs))) ks)
      = sum_list (map (\<lambda>k. (if x = k then 1 else 0) + length (filter (\<lambda>y. y = k) xs)) ks)"
    by (intro arg_cong[where f=sum_list] map_cong) auto
  also have "\<dots> = sum_list (map (\<lambda>k. if x = k then 1 else 0) ks) + length xs"
    using Cons by (simp add: sum_list_addf)
  also have "sum_list (map (\<lambda>k. if x = k then (1::nat) else 0) ks) = 1"
    using Cons.prems by (simp add: indicator_sum)
  finally show ?case by simp
qed

lemma value_counts_mset:
  "mset (value_counts xs) = mset (map (\<lambda>s. (s, length (filter (\<lambda>x. x = s) xs))) (rev (remdups (rev xs))))"
  by (simp add: value_counts_def)

lemma value_counts_keys:
  "distinct (map fst (value_counts xs))" "set (map fst (value_counts xs)) = set xs"
proof -
  let ?b = "map (\<lambda>s. (s, length (filter (\<lambda>x. x = s) xs))) (rev (remdups (rev xs)))"
  have "mset (map fst (value_counts xs)) = mset (map fst ?b)"
    unfolding mset_map value_counts_mset ..
  also have "map fst ?b = rev (remdups (rev xs))" by (simp add: comp_def)
  finally have m: "mset (map fst (value_counts xs)) = mset (rev (remdups (rev xs)))" .
  have "distinct (rev (remdups (rev xs)))" by simp
  then show "distinct (map fst (value_counts xs))" using mset_eq_imp_distinct_iff[OF m] by simp
  have "set (map fst (value_counts xs)) = set (rev (remdups (rev xs)))"
    using mset_eq_setD[OF m] .
  then show "set (map fst (value_counts xs)) = set xs" by simp
qed

lemma value_counts_sum: "sum_list (map snd (value_counts xs)) = length xs"
proof -
  let ?b = "map (\<lambda>s. (s, length (filter (\<lambda>x. x = s) xs))) (rev (remdups (rev xs)))"
  have h: "mset (map snd (value_counts xs)) = mset (map snd ?b)"
    unfolding mset_map value_counts_mset ..
  have "sum_list (map snd (value_counts xs)) = sum_mset (mset (map snd (value_counts xs)))"
    by (simp only: sum_mset_sum_list)
  also have "\<dots> = sum_mset (mset (map snd ?b))" by (simp only: h)
  also have "\<dots> = sum_list (map snd ?b)" by (simp only: sum_mset_sum_list)
  finally have "sum_list (map snd (value_counts xs)) = sum_list (map snd ?b)" .
  also have "map snd ?b = map (\<lambda>k. length (filter (\<lambda>x. x = k) xs)) (rev (remdups (rev xs)))"
    by (simp add: comp_def)
  also have "sum_list \<dots> = length xs"
    by (rule count_filter_sum) simp_all
  finally show ?thesis .
qed

lemma value_counts_map_of:
  "map_of (value_counts xs) s = (if s \<in> set xs then Some (length (filter (\<lambda>x. x = s) xs)) else None)"
proof -
  let ?b = "map (\<lambda>s. (s, length (filter (\<lambda>x. x = s) xs))) (rev (remdups (rev xs)))"
  have db: "distinct (map fst ?b)" by (simp add: comp_def)
  have "set (value_counts xs) = set ?b" using mset_eq_setD[OF value_counts_mset[of xs]] .
  then have "map_of (value_counts xs) = map_of ?b"
    using map_of_inject_set[OF value_counts_keys(1) db] by blast
  moreover have "map_of ?b s = (if s \<in> set xs then Some (length (filter (\<lambda>x. x = s) xs)) else None)"
    by (simp add: map_of_map_restrict restrict_map_def)
  ultimately show ?thesis by simp
qed

lemma slots_left_nonneg:
  "TOP_N_MANDATORY cfg \<le> TARGET_SAMPLE_SIZE cfg \<Longrightarrow> 0 \<le> slots_left cfg df"
  by (simp add: slots_left_def mandatory_def mandatory_rows_def)

lemma stratum_counts_distinct: "distinct (map fst (stratum_counts cfg df))"
  by (simp add: stratum_counts_def value_counts_keys(1))

lemma stratum_counts_sum:
  "length (remaining_pool cfg df) = sum_list (map snd (stratum_counts cfg df))"
  by (simp add: stratum_counts_def value_counts_sum)

lemma count_of_stratum_counts:
  "count_of (stratum_counts cfg df) s = int (length (filter (\<lambda>r. stratum r = s) (remaining_pool cfg df)))"
proof -
  have "length (filter (\<lambda>x. x = s) (map stratum (remaining_pool cfg df)))
      = length (filter (\<lambda>r. stratum r = s) (remaining_pool cfg df))"
    by (simp add: filter_map comp_def)
  moreover have "s \<notin> stratum ` set (remaining_pool cfg df) \<Longrightarrow>
      filter (\<lambda>r. stratum r = s) (remaining_pool cfg df) = []"
    by (auto simp: filter_empty_conv)
  ultimately show ?thesis
    by (auto simp: count_of_def stratum_counts_def value_counts_map_of)
qed

lemma allocation_inv:
  assumes "TOP_N_MANDATORY cfg \<le> TARGET_SAMPLE_SIZE cfg"
  shows "alloc_inv (stratum_counts cfg df) (allocation cfg df) \<and>
         alloc_total (allocation cfg df) \<le> slots_left cfg df"
proof -
  have e: "rebalance 100 = rebalance (Suc 99)" by simp
  show ?thesis
    unfolding allocation_def Let_def e
    by (rule rebalance_initial[OF stratum_counts_distinct slots_left_nonneg[OF assms] stratum_counts_sum])
qed

lemma lookup_mem: "distinct (map fst al) \<Longrightarrow> (s, a) \<in> set al \<Longrightarrow> lookup al s = a"
  by (simp add: lookup_def)

text \<open>
  Claim C1. After the rebalancing loop of \<^verbatim>\<open>select_sample\<close>, for a configuration whose
  \<^verbatim>\<open>TOP_N_MANDATORY\<close> does not exceed \<^verbatim>\<open>TARGET_SAMPLE_SIZE\<close> (the configuration of the
  repository is one): the sum of the allocations never exceeds \<open>slots_left\<close>, so it is either
  equal to \<open>slots_left\<close> (the loop converged) or strictly below it; and every stratum's
  allocation lies between 0 and the number of rows of that stratum in the remaining pool.
\<close>

theorem allocation_sum_invariant:
  assumes "TOP_N_MANDATORY cfg \<le> TARGET_SAMPLE_SIZE cfg"
  shows "alloc_total (allocation cfg df) \<le> slots_left cfg df \<and>
         (\<forall>(s, a) \<in> set (allocation cfg df).
            0 \<le> a \<and> a \<le> int (length (filter (\<lambda>r. stratum r = s) (remaining_pool cfg df))))"
proof -
  have inv: "alloc_inv (stratum_counts cfg df) (allocation cfg df)"
    and le: "alloc_total (allocation cfg df) \<le> slots_left cfg df"
    using allocation_inv[OF assms] by auto
  have d: "distinct (map fst (allocation cfg df))"
    using inv by (simp add: alloc_inv_def)
  have "0 \<le> a \<and> a \<le> int (length (filter (\<lambda>r. stratum r = s) (remaining_pool cfg df)))"
    if "(s, a) \<in> set (allocation cfg df)" for s a
  proof -
    have "lookup (allocation cfg df) s = a" using lookup_mem[OF d that] .
    moreover have "0 \<le> lookup (allocation cfg df) s \<and>
        lookup (allocation cfg df) s \<le> count_of (stratum_counts cfg df) s"
      using inv by (simp add: alloc_inv_def)
    ultimately show ?thesis using count_of_stratum_counts[of cfg df s] by simp
  qed
  then show ?thesis using le by auto
qed

lemma rebalance_numeral:
  "rebalance (numeral k) sl counts al =
     (if alloc_total al = sl then al
      else if alloc_total al > sl then
        rebalance (pred_numeral k) sl counts (remove_pass sl (remove_candidates al) al)
      else
        (let candidates = add_candidates counts al
         in if candidates = [] then al
            else rebalance (pred_numeral k) sl counts (add_pass sl candidates al)))"
  by (simp add: numeral_eq_Suc)

lemma example_stratum_counts: "stratum_counts example_config example_universe = [(''Large_NoRail_NoSM_South'', 1), (''Medium_NoRail_NoSM_South'', 1), (''Small_NoRail_NoSM_South'', 1)]"
  by (simp add: stratum_counts_def value_counts_def remaining_pool_def assign_strata_def assign_row_def
      pop_stratum_of_def POP_STRATA_def example_config_def example_universe_def example_msa_def msa.extend_def)

lemma example_slots_left: "slots_left example_config example_universe = 2"
  by (simp add: slots_left_def mandatory_def mandatory_rows_def assign_strata_def example_config_def example_universe_def)

lemma example_remaining: "length (remaining_pool example_config example_universe) = 3"
  by (simp add: remaining_pool_def assign_strata_def example_config_def example_universe_def)

lemma example_allocation: "allocation example_config example_universe = [(''Large_NoRail_NoSM_South'', 0), (''Medium_NoRail_NoSM_South'', 1), (''Small_NoRail_NoSM_South'', 1)]"
  unfolding allocation_def Let_def example_stratum_counts example_slots_left example_remaining
  by (simp add: rebalance_numeral initial_allocation_def py_round_div_def alloc_total_def
      remove_candidates_def lookup_def Let_def)

theorem allocation_sum_invariant_witness:
  "TOP_N_MANDATORY example_config \<le> TARGET_SAMPLE_SIZE example_config \<and>
   stratum_counts example_config example_universe =
     [(''Large_NoRail_NoSM_South'', 1), (''Medium_NoRail_NoSM_South'', 1),
      (''Small_NoRail_NoSM_South'', 1)] \<and>
   allocation example_config example_universe =
     [(''Large_NoRail_NoSM_South'', 0), (''Medium_NoRail_NoSM_South'', 1),
      (''Small_NoRail_NoSM_South'', 1)] \<and>
   slots_left example_config example_universe = 2 \<and>
   alloc_total (allocation example_config example_universe)
     \<le> slots_left example_config example_universe"
proof -
  have h: "TOP_N_MANDATORY example_config \<le> TARGET_SAMPLE_SIZE example_config"
    by (simp add: example_config_def)
  show ?thesis
    using h allocation_sum_invariant[OF h, of example_universe]
      example_allocation example_stratum_counts example_slots_left
    by blast
qed

section \<open>Properties of select\_sample\<close>

lemma population_assign_row [simp]: "population (assign_row r) = population r"
  by (simp add: assign_row_def Let_def msa.extend_def)

lemma cbsa_code_assign_row [simp]: "cbsa_code (assign_row r) = cbsa_code r"
  by (simp add: assign_row_def Let_def msa.extend_def)

lemma srow_weigh [simp]: "srow (weigh df sample t) = row t"
  by (simp add: weigh_def Let_def)

lemma smethod_weigh [simp]: "smethod (weigh df sample t) = selection_method t"
  by (simp add: weigh_def Let_def)

lemma add_metros_prefix: "\<exists>k. add_metros cfg tot ns s =
    s @ map (\<lambda>r. \<lparr>row = r, selection_method = Coverage_boost\<rparr>) (take k ns)"
proof (induction ns arbitrary: s)
  case Nil
  then show ?case by simp
next
  case (Cons r ns)
  let ?b = "\<lambda>r. \<lparr>row = r, selection_method = Coverage_boost\<rparr>"
  show ?case
  proof (cases "length s \<ge> MAX_SAMPLE_SIZE cfg")
    case True
    then have "add_metros cfg tot (r # ns) s = s @ map ?b (take 0 (r # ns))" by simp
    then show ?thesis by blast
  next
    case False
    show ?thesis
    proof (cases "coverage_reached cfg (pop_sum (s @ [?b r])) tot")
      case True
      then have "add_metros cfg tot (r # ns) s = s @ map ?b (take 1 (r # ns))"
        using False by (simp add: Let_def)
      then show ?thesis by blast
    next
      case nr: False
      obtain k where k: "add_metros cfg tot ns (s @ [?b r]) = (s @ [?b r]) @ map ?b (take k ns)"
        using Cons.IH by blast
      have "add_metros cfg tot (r # ns) s = s @ map ?b (take (Suc k) (r # ns))"
        using False nr k by (simp add: Let_def)
      then show ?thesis by blast
    qed
  qed
qed

lemma coverage_topup_prefix: "\<exists>k. coverage_topup cfg df s =
    s @ map (\<lambda>r. \<lparr>row = r, selection_method = Coverage_boost\<rparr>) (take k (needed df s))"
proof (cases "coverage_below cfg (pop_sum s) (total_pop df)")
  case True
  then show ?thesis using add_metros_prefix[of cfg "total_pop df" "needed df s" s]
    by (simp add: coverage_topup_def)
next
  case False
  then have "coverage_topup cfg df s =
    s @ map (\<lambda>r. \<lparr>row = r, selection_method = Coverage_boost\<rparr>) (take 0 (needed df s))"
    by (simp add: coverage_topup_def)
  then show ?thesis by blast
qed

lemma set_select_sample:
  "set (select_sample lib w cfg df) =
     weigh df (coverage_topup cfg df (combined lib w cfg df)) `
       set (coverage_topup cfg df (combined lib w cfg df))"
  by (simp add: select_sample_def Let_def)

lemma mandatory_in_topup:
  "t \<in> set (mandatory cfg df) \<Longrightarrow> t \<in> set (coverage_topup cfg df (combined lib w cfg df))"
proof -
  assume a: "t \<in> set (mandatory cfg df)"
  obtain k where "coverage_topup cfg df (combined lib w cfg df) = combined lib w cfg df @
     map (\<lambda>r. \<lparr>row = r, selection_method = Coverage_boost\<rparr>) (take k (needed df (combined lib w cfg df)))"
    using coverage_topup_prefix by blast
  then show ?thesis using a by (simp add: combined_def)
qed

lemma mandatory_in_sample:
  assumes "r \<in> set (mandatory_rows cfg df)"
  shows "\<lparr>srow = r, smethod = Mandatory_top10, sample_weight = 1\<rparr> \<in> set (select_sample lib w cfg df)"
proof -
  let ?t = "\<lparr>row = r, selection_method = Mandatory_top10\<rparr>"
  have "?t \<in> set (mandatory cfg df)" using assms by (simp add: mandatory_def)
  then have "?t \<in> set (coverage_topup cfg df (combined lib w cfg df))" by (rule mandatory_in_topup)
  then have "weigh df (coverage_topup cfg df (combined lib w cfg df)) ?t \<in> set (select_sample lib w cfg df)"
    unfolding set_select_sample by blast
  moreover have "weigh df (coverage_topup cfg df (combined lib w cfg df)) ?t =
     \<lparr>srow = r, smethod = Mandatory_top10, sample_weight = 1\<rparr>"
    by (simp add: weigh_def Let_def)
  ultimately show ?thesis by simp
qed




lemma example_rows:
  "assign_strata example_universe =
    [example_row ''A'' 10000000 ''Mega'', example_row ''B'' 2000000 ''Large'',
     example_row ''C'' 600000 ''Medium'', example_row ''D'' 100000 ''Small'']"
  by (simp add: assign_strata_def assign_row_def pop_stratum_of_def POP_STRATA_def
      example_universe_def example_msa_def example_row_def Let_def)

lemma example_sampled_parts:
  "sampled_parts example_library 0 example_config example_universe =
     [[example_row ''C'' 600000 ''Medium''], [example_row ''D'' 100000 ''Small'']]"
  unfolding sampled_parts_def example_allocation remaining_pool_def example_rows
  by (simp add: example_config_def example_library_def example_row_def msa.extend_def example_msa_def)

lemma example_combined:
  "combined example_library 0 example_config example_universe =
     [\<lparr>row = example_row ''A'' 10000000 ''Mega'', selection_method = Mandatory_top10\<rparr>,
      \<lparr>row = example_row ''C'' 600000 ''Medium'', selection_method = Stratified_random\<rparr>,
      \<lparr>row = example_row ''D'' 100000 ''Small'', selection_method = Stratified_random\<rparr>]"
  unfolding combined_def sampled_def example_sampled_parts mandatory_def mandatory_rows_def example_rows
  by (simp add: example_config_def)

lemma example_total_pop: "total_pop example_universe = 12700000"
  unfolding total_pop_def example_rows
  by (simp add: example_row_def msa.extend_def example_msa_def)

lemma example_select_sample:
  "select_sample example_library 0 example_config example_universe =
     [\<lparr>srow = example_row ''A'' 10000000 ''Mega'', smethod = Mandatory_top10, sample_weight = 1\<rparr>,
      \<lparr>srow = example_row ''C'' 600000 ''Medium'', smethod = Stratified_random, sample_weight = 1\<rparr>,
      \<lparr>srow = example_row ''D'' 100000 ''Small'', smethod = Stratified_random, sample_weight = 1\<rparr>]"
  unfolding select_sample_def example_combined coverage_topup_def example_total_pop Let_def
  unfolding weigh_def example_rows
  by (simp add: pop_sum_def coverage_below_def example_config_def example_row_def msa.extend_def
      example_msa_def value_counts_def get_count_def)

lemma draw_strata_ambient:
  assumes "seed_determines lib"
  shows "draw_strata lib w1 seed k pool al = draw_strata lib w2 seed k pool al"
proof (induction al arbitrary: k)
  case Nil
  then show ?case by simp
next
  case (Cons p al)
  obtain s a where p: "p = (s, a)" by (cases p)
  have i: "rng_integers lib w1 (Some seed) k = rng_integers lib w2 (Some seed) k"
    using assms unfolding seed_determines_def by metis
  have "\<And>rs. pd_sample lib w1 (Some rs) = pd_sample lib w2 (Some rs)"
    using assms unfolding seed_determines_def by blast
  then show ?case unfolding p using i Cons.IH by (simp add: Let_def)
qed

text \<open>
  Claim C3. Two runs of \<^verbatim>\<open>select_sample\<close> on the same universe (same rows in the same
  order) with the same configuration constants and the same seed give the same output: the
  same rows in the same order, with the same selection method and the same sample weight for
  every row. Two runs differ in their ambient state (the entropy of the operating system,
  numpy's global generator), which every library call can read. Every call that
  \<^verbatim>\<open>select_sample\<close> makes is seeded, from \<open>RANDOM_SEED\<close> or from an integer drawn from the
  generator seeded with it, so for libraries whose seeded calls depend on the seed alone the
  output is the same for any two ambient states.
\<close>

theorem select_sample_deterministic:
  assumes "seed_determines lib"
  shows "select_sample lib w1 cfg df = select_sample lib w2 cfg df"
proof -
  have "sampled_parts lib w1 cfg df = sampled_parts lib w2 cfg df"
    unfolding sampled_parts_def by (rule draw_strata_ambient[OF assms])
  then have "combined lib w1 cfg df = combined lib w2 cfg df"
    by (simp add: combined_def sampled_def)
  then show ?thesis by (simp add: select_sample_def)
qed

lemma example_library_seeded: "seed_determines example_library"
  by (simp add: seed_determines_def example_library_def)

theorem select_sample_deterministic_witness:
  "seed_determines example_library \<and>
   rng_integers example_library 0 None 0 \<noteq> rng_integers example_library 7 None 0 \<and>
   select_sample example_library 7 example_config example_universe =
     [\<lparr>srow = example_row ''A'' 10000000 ''Mega'', smethod = Mandatory_top10, sample_weight = 1\<rparr>,
      \<lparr>srow = example_row ''C'' 600000 ''Medium'', smethod = Stratified_random, sample_weight = 1\<rparr>,
      \<lparr>srow = example_row ''D'' 100000 ''Small'', smethod = Stratified_random, sample_weight = 1\<rparr>]"
proof -
  have "rng_integers example_library 0 None 0 \<noteq> rng_integers example_library 7 None 0"
    by (simp add: example_library_def)
  then show ?thesis
    using example_library_seeded example_select_sample
      select_sample_deterministic[OF example_library_seeded, of 0 example_config example_universe 7]
    by simp
qed

lemma py_round_div_nonpos:
  assumes "a \<le> 0" "0 \<le> b"
  shows "py_round_div a b \<le> 0"
proof (cases "b = 0")
  case True
  then show ?thesis using assms by (simp add: py_round_div_def Let_def)
next
  case False
  then have b: "0 < b" using assms by simp
  have q: "a div b \<le> 0" using assms(1) b by (simp add: div_nonpos_pos_le0)
  have r: "0 \<le> a mod b" "a mod b < b" using b by simp_all
  have e: "b * (a div b) + a mod b = a" by simp
  have z: "a div b = 0 \<Longrightarrow> a mod b = 0"
  proof -
    assume "a div b = 0"
    then have "a mod b = a" using e by simp
    then show ?thesis using r(1) assms(1) by simp
  qed
  show ?thesis
  proof (cases "a div b = 0")
    case True
    then show ?thesis using z b by (simp add: py_round_div_def Let_def)
  next
    case False
    then have "a div b + 1 \<le> 0" using q by simp
    then show ?thesis using q by (simp add: py_round_div_def Let_def)
  qed
qed

lemma alloc_of_negative: "sl < 0 \<Longrightarrow> alloc_of sl k N c = 0"
proof -
  assume sl: "sl < 0"
  have "sl * int c \<le> 0" using sl by (simp add: mult_nonpos_nonneg)
  then have "py_round_div (sl * int c) (int N) \<le> 0" by (rule py_round_div_nonpos) simp
  then show ?thesis using sl by (simp add: alloc_of_def Let_def)
qed

lemma initial_negative:
  "sl < 0 \<Longrightarrow> \<forall>p \<in> set (initial_allocation sl counts N). snd p = 0"
  by (auto simp: initial_allocation_alt alloc_of_negative)

lemma lookup_all_zero: "\<forall>p \<in> set al. snd p = 0 \<Longrightarrow> lookup al t = 0"
proof -
  assume a: "\<forall>p \<in> set al. snd p = 0"
  show ?thesis
  proof (cases "map_of al t")
    case None
    then show ?thesis by (simp add: lookup_def)
  next
    case (Some v)
    then have "(t, v) \<in> set al" by (rule map_of_SomeD)
    then have "v = 0" using a by auto
    then show ?thesis using Some by (simp add: lookup_def)
  qed
qed

lemma remove_pass_zero: "\<forall>t. lookup al t \<le> 0 \<Longrightarrow> remove_pass sl cs al = al"
  by (induction cs) (auto simp: not_less[symmetric])

lemma rebalance_negative:
  assumes "sl < 0" "\<forall>p \<in> set al. snd p = 0"
  shows "rebalance n sl counts al = al"
proof (induction n)
  case 0
  then show ?case by simp
next
  case (Suc n)
  have t: "alloc_total al = 0"
    unfolding alloc_total_def using assms(2) by (simp add: sum_list_all_zero)
  have "remove_pass sl (remove_candidates al) al = al"
    by (rule remove_pass_zero) (simp add: lookup_all_zero[OF assms(2)])
  then show ?case using t assms(1) Suc by simp
qed

lemma rebalance_nil: "rebalance n sl [] [] = []"
  by (induction n) (simp_all add: alloc_total_def remove_candidates_def add_candidates_def)

lemma draw_strata_zero:
  "\<forall>p \<in> set al. snd p \<le> 0 \<Longrightarrow> draw_strata lib w seed k pool al = []"
proof (induction al)
  case Nil
  then show ?case by simp
next
  case (Cons p al)
  obtain s a where p: "p = (s, a)" by (cases p)
  have "a \<le> 0" using Cons.prems p by simp
  then have "\<not> 0 < min a (int (length (filter (\<lambda>r. stratum r = s) pool)))" by simp
  then show ?case unfolding p using Cons by (simp add: Let_def)
qed

lemma sampled_empty:
  assumes "TARGET_SAMPLE_SIZE cfg < TOP_N_MANDATORY cfg"
  shows "sampled lib w cfg df = []"
proof -
  have "\<forall>p \<in> set (allocation cfg df). snd p \<le> 0"
  proof (cases "length df \<le> TOP_N_MANDATORY cfg")
    case True
    then have "remaining_pool cfg df = []" by (simp add: remaining_pool_def assign_strata_def)
    then have "stratum_counts cfg df = []" by (simp add: stratum_counts_def value_counts_def)
    then have "allocation cfg df = []"
      by (simp add: allocation_def Let_def initial_allocation_def rebalance_nil)
    then show ?thesis by simp
  next
    case False
    then have "slots_left cfg df < 0" using assms
      by (simp add: slots_left_def mandatory_def mandatory_rows_def assign_strata_def)
    then have "allocation cfg df =
       initial_allocation (slots_left cfg df) (stratum_counts cfg df) (length (remaining_pool cfg df))
       \<and> (\<forall>p \<in> set (initial_allocation (slots_left cfg df) (stratum_counts cfg df)
             (length (remaining_pool cfg df))). snd p = 0)"
      by (simp add: allocation_def Let_def rebalance_negative initial_negative)
    then show ?thesis by simp
  qed
  then have "sampled_parts lib w cfg df = []"
    unfolding sampled_parts_def by (rule draw_strata_zero)
  then show ?thesis by (simp add: sampled_def)
qed

text \<open>
  Claim C8, amended. \<^verbatim>\<open>select_sample\<close> does not check its configuration: when
  \<open>TOP_N_MANDATORY\<close> is greater than \<open>TARGET_SAMPLE_SIZE\<close> and the universe is not empty it
  returns a non-empty sample in which no row is drawn at random and every one of the first
  \<open>TOP_N_MANDATORY\<close> rows appears with selection method \<^verbatim>\<open>mandatory_top10\<close> and weight 1.
\<close>

theorem no_configuration_check:
  assumes "TARGET_SAMPLE_SIZE cfg < TOP_N_MANDATORY cfg" and "df \<noteq> []"
  shows "select_sample lib w cfg df \<noteq> [] \<and>
         sampled lib w cfg df = [] \<and>
         (\<forall>r \<in> set (mandatory_rows cfg df).
            \<lparr>srow = r, smethod = Mandatory_top10, sample_weight = 1\<rparr>
              \<in> set (select_sample lib w cfg df))"
proof -
  have m: "\<forall>r \<in> set (mandatory_rows cfg df).
            \<lparr>srow = r, smethod = Mandatory_top10, sample_weight = 1\<rparr>
              \<in> set (select_sample lib w cfg df)"
    using mandatory_in_sample by blast
  have "0 < TOP_N_MANDATORY cfg" using assms(1) by simp
  then have "mandatory_rows cfg df \<noteq> []" using assms(2)
    by (simp add: mandatory_rows_def assign_strata_def)
  then obtain r where "r \<in> set (mandatory_rows cfg df)" by (cases "mandatory_rows cfg df") auto
  then have "select_sample lib w cfg df \<noteq> []" using m by auto
  then show ?thesis using m sampled_empty[OF assms(1)] by simp
qed

lemma bad_config_malformed: "TARGET_SAMPLE_SIZE bad_config < TOP_N_MANDATORY bad_config"
  by (simp add: bad_config_def)

lemma bad_config_mandatory:
  "mandatory_rows bad_config example_universe =
     [example_row ''A'' 10000000 ''Mega'', example_row ''B'' 2000000 ''Large'']"
  unfolding mandatory_rows_def example_rows by (simp add: bad_config_def)

theorem no_configuration_check_witness:
  "TARGET_SAMPLE_SIZE bad_config < TOP_N_MANDATORY bad_config \<and> example_universe \<noteq> [] \<and>
   select_sample example_library 0 bad_config example_universe \<noteq> [] \<and>
   sampled example_library 0 bad_config example_universe = [] \<and>
   \<lparr>srow = example_row ''A'' 10000000 ''Mega'', smethod = Mandatory_top10, sample_weight = 1\<rparr>
      \<in> set (select_sample example_library 0 bad_config example_universe) \<and>
   \<lparr>srow = example_row ''B'' 2000000 ''Large'', smethod = Mandatory_top10, sample_weight = 1\<rparr>
      \<in> set (select_sample example_library 0 bad_config example_universe)"
proof -
  have n: "example_universe \<noteq> []" by (simp add: example_universe_def)
  show ?thesis
    using bad_config_malformed n bad_config_mandatory
      no_configuration_check[OF bad_config_malformed n, of example_library 0] by simp
qed

text \<open>
  Claim C8 as stated fails: \<^verbatim>\<open>select_sample\<close> has no check of the configuration and no
  error path. With \<open>TOP_N_MANDATORY = 2\<close> and \<open>TARGET_SAMPLE_SIZE = 1\<close> it returns a sample
  of the first two rows.
\<close>

theorem configuration_error_counterexample:
  "TARGET_SAMPLE_SIZE bad_config < TOP_N_MANDATORY bad_config \<and>
   select_sample example_library 0 bad_config example_universe =
     [\<lparr>srow = example_row ''A'' 10000000 ''Mega'', smethod = Mandatory_top10, sample_weight = 1\<rparr>,
      \<lparr>srow = example_row ''B'' 2000000 ''Large'', smethod = Mandatory_top10, sample_weight = 1\<rparr>]"
proof -
  have c: "combined example_library 0 bad_config example_universe =
     [\<lparr>row = example_row ''A'' 10000000 ''Mega'', selection_method = Mandatory_top10\<rparr>,
      \<lparr>row = example_row ''B'' 2000000 ''Large'', selection_method = Mandatory_top10\<rparr>]"
    unfolding combined_def sampled_empty[OF bad_config_malformed] mandatory_def bad_config_mandatory
    by simp
  have "select_sample example_library 0 bad_config example_universe =
     [\<lparr>srow = example_row ''A'' 10000000 ''Mega'', smethod = Mandatory_top10, sample_weight = 1\<rparr>,
      \<lparr>srow = example_row ''B'' 2000000 ''Large'', smethod = Mandatory_top10, sample_weight = 1\<rparr>]"
    unfolding select_sample_def c coverage_topup_def example_total_pop Let_def
    unfolding weigh_def example_rows
    by (simp add: pop_sum_def coverage_below_def bad_config_def example_row_def msa.extend_def
        example_msa_def)
  then show ?thesis using bad_config_malformed by simp
qed

lemma add_pass_keys:
  "\<forall>p \<in> set cs. fst p \<in> set (map fst al) \<Longrightarrow> map fst (add_pass sl cs al) = map fst al"
proof (induction cs arbitrary: al)
  case Nil
  then show ?case by simp
next
  case (Cons p cs)
  obtain s room where p: "p = (s, room)" by (cases p)
  have s: "s \<in> set (map fst al)" using Cons.prems p by simp
  let ?al = "AList.update s (lookup al s + 1) al"
  have k: "map fst ?al = map fst al" using s by (rule keys_update)
  have "\<forall>p \<in> set cs. fst p \<in> set (map fst ?al)" unfolding k using Cons.prems by simp
  then have "map fst (add_pass sl cs ?al) = map fst ?al" by (rule Cons.IH)
  then show ?case unfolding p using k by simp
qed

lemma rebalance_keys:
  "distinct (map fst al) \<Longrightarrow> map fst (rebalance n sl counts al) = map fst al"
proof (induction n arbitrary: al)
  case 0
  then show ?case by simp
next
  case (Suc n)
  show ?case
  proof (cases "alloc_total al = sl")
    case True
    then show ?thesis by simp
  next
    case ne: False
    show ?thesis
    proof (cases "alloc_total al > sl")
      case True
      let ?al = "remove_pass sl (remove_candidates al) al"
      have k: "map fst ?al = map fst al" by (rule remove_pass_keys)
      then have "distinct (map fst ?al)" using Suc.prems by simp
      then have "map fst (rebalance n sl counts ?al) = map fst ?al" by (rule Suc.IH)
      then show ?thesis using ne True k by simp
    next
      case False
      show ?thesis
      proof (cases "add_candidates counts al = []")
        case True
        then show ?thesis using ne False by simp
      next
        case nc: False
        let ?al = "add_pass sl (add_candidates counts al) al"
        have "\<forall>p \<in> set (add_candidates counts al). fst p \<in> set (map fst al)"
          using add_candidates_ok[OF Suc.prems, of counts] by simp
        then have k: "map fst ?al = map fst al" by (rule add_pass_keys)
        then have "distinct (map fst ?al)" using Suc.prems by simp
        then have "map fst (rebalance n sl counts ?al) = map fst ?al" by (rule Suc.IH)
        then show ?thesis using ne False nc k by (simp add: Let_def)
      qed
    qed
  qed
qed

lemma allocation_keys: "distinct (map fst (allocation cfg df))"
proof -
  have d: "distinct (map fst (initial_allocation (slots_left cfg df) (stratum_counts cfg df)
      (length (remaining_pool cfg df))))"
    unfolding initial_keys by (rule stratum_counts_distinct)
  show ?thesis unfolding allocation_def Let_def rebalance_keys[OF d] by (rule d)
qed

lemma filter_disjoint_mset:
  "\<forall>x. \<not> (P x \<and> Q x) \<Longrightarrow>
   mset (filter P xs) + mset (filter Q xs) = mset (filter (\<lambda>x. P x \<or> Q x) xs)"
  by (induction xs) auto

lemma draw_strata_sub:
  assumes swr: "sample_without_replacement lib"
  shows "distinct (map fst al) \<Longrightarrow>
    mset (concat (draw_strata lib w seed k pool al))
      \<subseteq># mset (filter (\<lambda>r. stratum r \<in> set (map fst al)) pool)"
proof (induction al arbitrary: k)
  case Nil
  then show ?case by simp
next
  case (Cons p al)
  obtain s a where p: "p = (s, a)" by (cases p)
  let ?ps = "filter (\<lambda>r. stratum r = s) pool"
  let ?n = "min a (int (length ?ps))"
  let ?rest = "filter (\<lambda>r. stratum r \<in> set (map fst al)) pool"
  have s: "s \<notin> set (map fst al)" and d: "distinct (map fst al)" using Cons.prems p by simp_all
  have "\<forall>x. \<not> (stratum x = s \<and> stratum x \<in> set (map fst al))" using s by auto
  then have "mset ?ps + mset ?rest =
      mset (filter (\<lambda>r. stratum r = s \<or> stratum r \<in> set (map fst al)) pool)"
    by (rule filter_disjoint_mset)
  then have split: "mset (filter (\<lambda>r. stratum r \<in> set (map fst (p # al))) pool) = mset ?ps + mset ?rest"
    unfolding p by simp
  show ?case
  proof (cases "0 < ?n")
    case True
    let ?part = "pd_sample lib w (Some (rng_integers lib w (Some seed) k)) (nat ?n) ?ps"
    have "nat ?n \<le> length ?ps" by simp
    then have a: "mset ?part \<subseteq># mset ?ps"
      using swr unfolding sample_without_replacement_def by blast
    have b: "mset (concat (draw_strata lib w seed (Suc k) pool al)) \<subseteq># mset ?rest"
      using Cons.IH[OF d] .
    have "mset ?part + mset (concat (draw_strata lib w seed (Suc k) pool al))
        \<subseteq># mset ?ps + mset ?rest"
      using a b by (rule subset_mset.add_mono)
    moreover have "concat (draw_strata lib w seed k pool (p # al)) =
        ?part @ concat (draw_strata lib w seed (Suc k) pool al)"
      unfolding p using True by (simp add: Let_def)
    ultimately show ?thesis unfolding split by simp
  next
    case False
    have b: "mset (concat (draw_strata lib w seed k pool al)) \<subseteq># mset ?rest"
      using Cons.IH[OF d] .
    have "concat (draw_strata lib w seed k pool (p # al)) = concat (draw_strata lib w seed k pool al)"
      unfolding p using False by (simp only: draw_strata.simps Let_def if_False)
    moreover have "mset ?rest \<subseteq># mset ?ps + mset ?rest" by simp
    ultimately show ?thesis unfolding split using b by (simp add: subset_mset.order_trans)
  qed
qed

lemma sampled_rows_sub:
  assumes "sample_without_replacement lib"
  shows "mset (concat (sampled_parts lib w cfg df)) \<subseteq># mset (remaining_pool cfg df)"
proof -
  have "mset (concat (sampled_parts lib w cfg df))
      \<subseteq># mset (filter (\<lambda>r. stratum r \<in> set (map fst (allocation cfg df))) (remaining_pool cfg df))"
    unfolding sampled_parts_def by (rule draw_strata_sub[OF assms allocation_keys])
  moreover have "mset (filter (\<lambda>r. stratum r \<in> set (map fst (allocation cfg df))) (remaining_pool cfg df))
      \<subseteq># mset (remaining_pool cfg df)"
    by simp
  ultimately show ?thesis by (rule subset_mset.order_trans)
qed

lemma combined_rows: "map row (combined lib w cfg df) = mandatory_rows cfg df @ concat (sampled_parts lib w cfg df)"
  by (simp add: combined_def mandatory_def sampled_def comp_def)

lemma combined_rows_sub:
  assumes "sample_without_replacement lib"
  shows "mset (map row (combined lib w cfg df)) \<subseteq># mset (assign_strata df)"
proof -
  have "mset (mandatory_rows cfg df) + mset (concat (sampled_parts lib w cfg df))
      \<subseteq># mset (mandatory_rows cfg df) + mset (remaining_pool cfg df)"
    using sampled_rows_sub[OF assms] by simp
  moreover have "mset (mandatory_rows cfg df) + mset (remaining_pool cfg df) = mset (assign_strata df)"
    unfolding mandatory_rows_def remaining_pool_def mset_append[symmetric] append_take_drop_id ..
  ultimately show ?thesis unfolding combined_rows by simp
qed

lemma mset_take_sub: "mset (take k xs) \<subseteq># mset xs"
proof -
  have "mset xs = mset (take k xs) + mset (drop k xs)"
    unfolding mset_append[symmetric] append_take_drop_id ..
  then show ?thesis by simp
qed

lemma topup_rows:
  "\<exists>k. map row (coverage_topup cfg df s) = map row s @ take k (needed df s)"
proof -
  obtain k where "coverage_topup cfg df s =
      s @ map (\<lambda>r. \<lparr>row = r, selection_method = Coverage_boost\<rparr>) (take k (needed df s))"
    using coverage_topup_prefix by blast
  then have "map row (coverage_topup cfg df s) = map row s @ take k (needed df s)"
    by (simp add: comp_def)
  then show ?thesis by blast
qed

lemma topup_rows_sub:
  assumes "mset (map row s) \<subseteq># mset (assign_strata df)"
  shows "mset (map row (coverage_topup cfg df s)) \<subseteq># mset (assign_strata df)"
proof -
  let ?in = "\<lambda>r. cbsa_code r \<in> set (map (\<lambda>t. cbsa_code (row t)) s)"
  obtain k where k: "map row (coverage_topup cfg df s) = map row s @ take k (needed df s)"
    using topup_rows by blast
  have "filter ?in (map row s) = map row s" by (simp add: filter_id_conv)
  then have "mset (map row s) = filter_mset ?in (mset (map row s))"
    unfolding mset_filter[symmetric] by simp
  also have "\<dots> \<subseteq># filter_mset ?in (mset (assign_strata df))"
    using assms by (rule multiset_filter_mono)
  finally have a: "mset (map row s) \<subseteq># filter_mset ?in (mset (assign_strata df))" .
  have "mset (take k (needed df s)) \<subseteq># mset (needed df s)" by (rule mset_take_sub)
  also have "mset (needed df s) = filter_mset (\<lambda>r. \<not> ?in r) (mset (assign_strata df))"
    by (simp add: needed_def)
  finally have b: "mset (take k (needed df s)) \<subseteq># filter_mset (\<lambda>r. \<not> ?in r) (mset (assign_strata df))" .
  have "mset (map row s) + mset (take k (needed df s))
      \<subseteq># filter_mset ?in (mset (assign_strata df)) + filter_mset (\<lambda>r. \<not> ?in r) (mset (assign_strata df))"
    using a b by (rule subset_mset.add_mono)
  then show ?thesis unfolding k mset_append multiset_partition[symmetric] .
qed

lemma sample_rows_sub:
  assumes "sample_without_replacement lib"
  shows "mset (map row (coverage_topup cfg df (combined lib w cfg df))) \<subseteq># mset (assign_strata df)"
  by (rule topup_rows_sub) (rule combined_rows_sub[OF assms])

lemma sub_distinct: "mset xs \<subseteq># mset ys \<Longrightarrow> distinct ys \<Longrightarrow> distinct xs"
proof -
  assume s: "mset xs \<subseteq># mset ys" and d: "distinct ys"
  have "\<And>a. count (mset xs) a \<le> 1"
  proof -
    fix a
    have "count (mset xs) a \<le> count (mset ys) a" using s by (rule mset_subset_eq_count)
    also have "\<dots> \<le> 1" using d by (simp add: distinct_count_atmost_1)
    finally show "count (mset xs) a \<le> 1" .
  qed
  then have "\<And>a. count (mset xs) a = (if a \<in> set xs then 1 else 0)"
    by (metis count_mset_0_iff le_antisym less_one not_le_imp_less)
  then show ?thesis by (simp add: distinct_count_atmost_1)
qed

lemma ids_assign_strata: "map cbsa_code (assign_strata df) = map cbsa_code df"
  by (simp add: assign_strata_def comp_def)

lemma sample_ids_distinct:
  assumes "distinct (map cbsa_code df)" and "sample_without_replacement lib"
  shows "distinct (map (\<lambda>t. cbsa_code (row t)) (coverage_topup cfg df (combined lib w cfg df)))"
proof -
  let ?s = "coverage_topup cfg df (combined lib w cfg df)"
  have "image_mset cbsa_code (mset (map row ?s)) \<subseteq># image_mset cbsa_code (mset (assign_strata df))"
    using sample_rows_sub[OF assms(2)] by (rule image_mset_subseteq_mono)
  then have "mset (map cbsa_code (map row ?s)) \<subseteq># mset (map cbsa_code df)"
    unfolding mset_map ids_assign_strata[symmetric] .
  then have "distinct (map cbsa_code (map row ?s))" using assms(1) by (rule sub_distinct)
  then show ?thesis by (simp add: comp_def)
qed

lemma output_ids:
  "mset (map (\<lambda>r. cbsa_code (srow r)) (select_sample lib w cfg df)) =
   mset (map (\<lambda>t. cbsa_code (row t)) (coverage_topup cfg df (combined lib w cfg df)))"
  by (simp add: select_sample_def Let_def multiset.map_comp comp_def)

text \<open>
  Claim C7. For every universe whose region ids (\<^verbatim>\<open>cbsa_code\<close>) are pairwise distinct, the ids
  of the rows of the final sample are pairwise distinct: no region occurs in more than one of
  the mandatory, stratified-random and coverage-boost selections, and none is drawn twice
  within a stratum. The sampler of pandas is taken to sample without replacement.
\<close>

theorem no_duplicate_regions:
  assumes "distinct (map cbsa_code df)" and "sample_without_replacement lib"
  shows "distinct (map (\<lambda>r. cbsa_code (srow r)) (select_sample lib w cfg df))"
  using sample_ids_distinct[OF assms] mset_eq_imp_distinct_iff[OF output_ids] by blast

lemma example_library_sample: "sample_without_replacement example_library"
proof -
  have "\<And>n m (pool :: smsa list). mset (take n (rotate m pool)) \<subseteq># mset pool"
  proof -
    fix n m and pool :: "smsa list"
    have "mset (take n (rotate m pool)) \<subseteq># mset (rotate m pool)" by (rule mset_take_sub)
    moreover have "mset (rotate m pool) = mset pool"
    proof -
      let ?k = "m mod length pool"
      have "mset (rotate m pool) = mset (drop ?k pool) + mset (take ?k pool)"
        unfolding rotate_drop_take by simp
      also have "\<dots> = mset (take ?k pool) + mset (drop ?k pool)" by (rule add.commute)
      also have "\<dots> = mset (take ?k pool @ drop ?k pool)" by (simp only: mset_append)
      also have "\<dots> = mset pool" by (simp only: append_take_drop_id)
      finally show ?thesis .
    qed
    ultimately show "mset (take n (rotate m pool)) \<subseteq># mset pool" by simp
  qed
  then show ?thesis by (simp add: sample_without_replacement_def example_library_def)
qed

lemma example_ids: "distinct (map cbsa_code example_universe)"
  by (simp add: example_universe_def example_msa_def)

theorem no_duplicate_regions_witness:
  "distinct (map cbsa_code example_universe) \<and> sample_without_replacement example_library \<and>
   map (\<lambda>r. cbsa_code (srow r)) (select_sample example_library 0 example_config example_universe)
     = [''A'', ''C'', ''D''] \<and>
   distinct (map (\<lambda>r. cbsa_code (srow r))
     (select_sample example_library 0 example_config example_universe))"
proof -
  have "map (\<lambda>r. cbsa_code (srow r)) (select_sample example_library 0 example_config example_universe)
     = [''A'', ''C'', ''D'']"
    unfolding example_select_sample by (simp add: example_row_def example_msa_def msa.extend_def)
  then show ?thesis
    using example_ids example_library_sample
      no_duplicate_regions[OF example_ids example_library_sample, of 0 example_config]
    by simp
qed

lemma get_count_value_counts:
  "s \<in> set xs \<Longrightarrow> get_count (value_counts xs) s = length (filter (\<lambda>x. x = s) xs)"
  by (simp add: get_count_def value_counts_map_of)

lemma length_filter_map: "length (filter P (map f xs)) = length (filter (\<lambda>x. P (f x)) xs)"
  by (induction xs) auto

lemma length_filter_mset: "length (filter P xs) = size (filter_mset P (mset xs))"
  by (simp flip: mset_filter)

lemma sub_filter_length:
  "mset xs \<subseteq># mset ys \<Longrightarrow> length (filter P xs) \<le> length (filter P ys)"
proof -
  assume "mset xs \<subseteq># mset ys"
  then have "filter_mset P (mset xs) \<subseteq># filter_mset P (mset ys)" by (rule multiset_filter_mono)
  then have "size (filter_mset P (mset xs)) \<le> size (filter_mset P (mset ys))" by (rule size_mset_mono)
  then show ?thesis unfolding length_filter_mset .
qed

lemma mem_filter_length: "x \<in> set xs \<Longrightarrow> P x \<Longrightarrow> 1 \<le> length (filter P xs)"
proof -
  assume "x \<in> set xs" "P x"
  then have "filter P xs \<noteq> []" by (auto simp: filter_empty_conv)
  then show ?thesis by (cases "filter P xs") auto
qed

lemma output_stratum_count:
  "length (filter (\<lambda>x. stratum (srow x) = s) (select_sample lib w cfg df)) =
   length (filter (\<lambda>u. stratum (row u) = s) (coverage_topup cfg df (combined lib w cfg df)))"
proof -
  let ?S = "coverage_topup cfg df (combined lib w cfg df)"
  have "mset (filter (\<lambda>x. stratum (srow x) = s) (select_sample lib w cfg df)) =
        mset (filter (\<lambda>x. stratum (srow x) = s) (map (weigh df ?S) ?S))"
    by (simp add: select_sample_def Let_def)
  then have "length (filter (\<lambda>x. stratum (srow x) = s) (select_sample lib w cfg df)) =
        length (filter (\<lambda>x. stratum (srow x) = s) (map (weigh df ?S) ?S))"
    by (rule mset_eq_length)
  then show ?thesis by (simp add: filter_map comp_def)
qed

lemma weigh_value:
  assumes sub: "mset (map row S) \<subseteq># mset (assign_strata df)" and t: "t \<in> set S"
  shows "sample_weight (weigh df S t) =
      (if selection_method t = Mandatory_top10 then 1
       else of_nat (length (filter (\<lambda>x. stratum x = stratum (row t)) (assign_strata df)))
          / of_nat (length (filter (\<lambda>u. stratum (row u) = stratum (row t)) S)))"
proof -
  let ?s = "stratum (row t)"
  have "row t \<in># mset (map row S)" using t by simp
  then have "row t \<in># mset (assign_strata df)" using sub by (rule mset_subset_eqD[rotated])
  then have "?s \<in> set (map stratum (assign_strata df))" by simp
  then have N: "get_count (value_counts (map stratum (assign_strata df))) ?s =
      length (filter (\<lambda>x. stratum x = ?s) (assign_strata df))"
    by (simp add: get_count_value_counts filter_map comp_def)
  have "?s \<in> set (map (\<lambda>u. stratum (row u)) S)" using t by simp
  then have n: "get_count (value_counts (map (\<lambda>u. stratum (row u)) S)) ?s =
      length (filter (\<lambda>u. stratum (row u) = ?s) S)"
    by (simp add: get_count_value_counts filter_map comp_def)
  show ?thesis unfolding weigh_def Let_def N n by simp
qed

lemma stratum_counts_ordered:
  assumes sub: "mset (map row S) \<subseteq># mset (assign_strata df)" and t: "t \<in> set S"
  shows "1 \<le> length (filter (\<lambda>u. stratum (row u) = stratum (row t)) S) \<and>
         length (filter (\<lambda>u. stratum (row u) = stratum (row t)) S)
           \<le> length (filter (\<lambda>x. stratum x = stratum (row t)) (assign_strata df))"
proof -
  have a: "1 \<le> length (filter (\<lambda>u. stratum (row u) = stratum (row t)) S)"
    using t by (rule mem_filter_length) simp
  have "length (filter (\<lambda>x. stratum x = stratum (row t)) (map row S))
      \<le> length (filter (\<lambda>x. stratum x = stratum (row t)) (assign_strata df))"
    using sub by (rule sub_filter_length)
  then show ?thesis using a by (simp add: filter_map comp_def)
qed

text \<open>
  Claim C10. Every sample weight in the output of \<^verbatim>\<open>select_sample\<close> is at least 1: a
  mandatory row has weight exactly 1, and every other row has as weight the number of rows of
  its stratum in the universe divided by the number of rows of its stratum in the sample,
  where the latter is at least 1 and never exceeds the former. The sampler of pandas is taken
  to sample without replacement; the ids need not be distinct for this.
\<close>

theorem sample_weights_at_least_one:
  assumes "sample_without_replacement lib"
  shows "\<forall>r \<in> set (select_sample lib w cfg df).
     1 \<le> sample_weight r \<and>
     (smethod r = Mandatory_top10 \<longrightarrow> sample_weight r = 1) \<and>
     (smethod r \<noteq> Mandatory_top10 \<longrightarrow>
        sample_weight r =
          of_nat (length (filter (\<lambda>x. stratum x = stratum (srow r)) (assign_strata df)))
            / of_nat (length (filter (\<lambda>x. stratum (srow x) = stratum (srow r))
                (select_sample lib w cfg df))) \<and>
        1 \<le> length (filter (\<lambda>x. stratum (srow x) = stratum (srow r)) (select_sample lib w cfg df)) \<and>
        length (filter (\<lambda>x. stratum (srow x) = stratum (srow r)) (select_sample lib w cfg df))
          \<le> length (filter (\<lambda>x. stratum x = stratum (srow r)) (assign_strata df)))"
proof
  fix r
  assume "r \<in> set (select_sample lib w cfg df)"
  let ?S = "coverage_topup cfg df (combined lib w cfg df)"
  have sub: "mset (map row ?S) \<subseteq># mset (assign_strata df)" by (rule sample_rows_sub[OF assms])
  obtain t where t: "t \<in> set ?S" and r: "r = weigh df ?S t"
    using \<open>r \<in> set (select_sample lib w cfg df)\<close> unfolding set_select_sample by blast
  let ?n = "length (filter (\<lambda>u. stratum (row u) = stratum (row t)) ?S)"
  let ?N = "length (filter (\<lambda>x. stratum x = stratum (row t)) (assign_strata df))"
  have v: "sample_weight r = (if selection_method t = Mandatory_top10 then 1 else of_nat ?N / of_nat ?n)"
    unfolding r by (rule weigh_value[OF sub t])
  have o: "1 \<le> ?n \<and> ?n \<le> ?N" by (rule stratum_counts_ordered[OF sub t])
  from o have "0 < ?n" by linarith
  then have p: "(0::rat) < of_nat ?n" by (simp only: of_nat_0_less_iff)
  have q: "(of_nat ?n :: rat) \<le> of_nat ?N" using o by (simp only: of_nat_le_iff)
  have "(1::rat) \<le> of_nat ?N / of_nat ?n"
    unfolding pos_le_divide_eq[OF p] using q by (simp only: mult_1)
  then have w1: "1 \<le> sample_weight r" using v by simp
  have c: "length (filter (\<lambda>x. stratum (srow x) = stratum (srow r)) (select_sample lib w cfg df)) = ?n"
    unfolding output_stratum_count r by simp
  have s: "stratum (srow r) = stratum (row t)" "smethod r = selection_method t" unfolding r by simp_all
  show "1 \<le> sample_weight r \<and>
     (smethod r = Mandatory_top10 \<longrightarrow> sample_weight r = 1) \<and>
     (smethod r \<noteq> Mandatory_top10 \<longrightarrow>
        sample_weight r =
          of_nat (length (filter (\<lambda>x. stratum x = stratum (srow r)) (assign_strata df)))
            / of_nat (length (filter (\<lambda>x. stratum (srow x) = stratum (srow r))
                (select_sample lib w cfg df))) \<and>
        1 \<le> length (filter (\<lambda>x. stratum (srow x) = stratum (srow r)) (select_sample lib w cfg df)) \<and>
        length (filter (\<lambda>x. stratum (srow x) = stratum (srow r)) (select_sample lib w cfg df))
          \<le> length (filter (\<lambda>x. stratum x = stratum (srow r)) (assign_strata df)))"
    unfolding c unfolding s using w1 v o by simp
qed

lemma one_stratum_rows:
  "assign_strata one_stratum_universe =
    [example_row ''A'' 10000000 ''Mega'', example_row ''B'' 300000 ''Small'',
     example_row ''C'' 200000 ''Small'', example_row ''D'' 100000 ''Small'']"
  by (simp add: assign_strata_def assign_row_def pop_stratum_of_def POP_STRATA_def
      one_stratum_universe_def example_msa_def example_row_def Let_def)

lemma one_stratum_allocation:
  "allocation example_config one_stratum_universe = [(''Small_NoRail_NoSM_South'', 2)]"
proof -
  have c: "stratum_counts example_config one_stratum_universe = [(''Small_NoRail_NoSM_South'', 3)]"
    unfolding stratum_counts_def remaining_pool_def one_stratum_rows
    by (simp add: value_counts_def example_config_def example_row_def msa.extend_def)
  have s: "slots_left example_config one_stratum_universe = 2"
    unfolding slots_left_def mandatory_def mandatory_rows_def one_stratum_rows
    by (simp add: example_config_def)
  have r: "length (remaining_pool example_config one_stratum_universe) = 3"
    unfolding remaining_pool_def one_stratum_rows by (simp add: example_config_def)
  show ?thesis
    unfolding allocation_def Let_def c s r
    by (simp add: rebalance_numeral initial_allocation_def py_round_div_def alloc_total_def)
qed

lemma one_stratum_sample:
  "select_sample example_library 0 example_config one_stratum_universe =
     [\<lparr>srow = example_row ''A'' 10000000 ''Mega'', smethod = Mandatory_top10, sample_weight = 1\<rparr>,
      \<lparr>srow = example_row ''B'' 300000 ''Small'', smethod = Stratified_random, sample_weight = 3 / 2\<rparr>,
      \<lparr>srow = example_row ''C'' 200000 ''Small'', smethod = Stratified_random, sample_weight = 3 / 2\<rparr>]"
proof -
  have p: "sampled_parts example_library 0 example_config one_stratum_universe =
      [[example_row ''B'' 300000 ''Small'', example_row ''C'' 200000 ''Small'']]"
    unfolding sampled_parts_def one_stratum_allocation remaining_pool_def one_stratum_rows
    by (simp add: example_config_def example_library_def example_row_def msa.extend_def
        example_msa_def)
  have c: "combined example_library 0 example_config one_stratum_universe =
     [\<lparr>row = example_row ''A'' 10000000 ''Mega'', selection_method = Mandatory_top10\<rparr>,
      \<lparr>row = example_row ''B'' 300000 ''Small'', selection_method = Stratified_random\<rparr>,
      \<lparr>row = example_row ''C'' 200000 ''Small'', selection_method = Stratified_random\<rparr>]"
    unfolding combined_def sampled_def p mandatory_def mandatory_rows_def one_stratum_rows
    by (simp add: example_config_def)
  have t: "total_pop one_stratum_universe = 10600000"
    unfolding total_pop_def one_stratum_rows
    by (simp add: example_row_def msa.extend_def example_msa_def)
  show ?thesis
    unfolding select_sample_def c coverage_topup_def t Let_def
    unfolding weigh_def one_stratum_rows
    by (simp add: pop_sum_def coverage_below_def example_config_def example_row_def msa.extend_def
        example_msa_def value_counts_def get_count_def)
qed

theorem sample_weights_at_least_one_witness:
  "sample_without_replacement example_library \<and>
   map sample_weight (select_sample example_library 0 example_config one_stratum_universe)
     = [1, 3 / 2, 3 / 2] \<and>
   list_all (\<lambda>r. 1 \<le> sample_weight r)
     (select_sample example_library 0 example_config one_stratum_universe)"
proof -
  have "map sample_weight (select_sample example_library 0 example_config one_stratum_universe)
     = [1, 3 / 2, 3 / 2]"
    unfolding one_stratum_sample by simp
  then show ?thesis
    using example_library_sample
      sample_weights_at_least_one[OF example_library_sample, of 0 example_config one_stratum_universe]
    by (simp add: list_all_iff)
qed

lemma topup_step_0: "topup_step s ns 0 = s"
  by (simp add: topup_step_def)

lemma topup_step_Cons:
  "topup_step s (r # ns) (Suc i) =
   topup_step (s @ [\<lparr>row = r, selection_method = Coverage_boost\<rparr>]) ns i"
  by (simp add: topup_step_def)

lemma topup_step_Suc:
  "i < length ns \<Longrightarrow>
   topup_step s ns (Suc i) = topup_step s ns i @ [\<lparr>row = ns ! i, selection_method = Coverage_boost\<rparr>]"
  by (simp add: topup_step_def take_Suc_conv_app_nth)

lemma length_topup_step: "i \<le> length ns \<Longrightarrow> length (topup_step s ns i) = length s + i"
  by (simp add: topup_step_def)

lemma add_metros_run:
  "\<exists>k\<le>length ns. add_metros cfg tot ns s = topup_step s ns k \<and>
     (\<forall>i<k. length (topup_step s ns i) < MAX_SAMPLE_SIZE cfg) \<and>
     (\<forall>i. 0 < i \<and> i < k \<longrightarrow> \<not> coverage_reached cfg (pop_sum (topup_step s ns i)) tot) \<and>
     (k = length ns \<or> MAX_SAMPLE_SIZE cfg \<le> length (topup_step s ns k) \<or>
      (0 < k \<and> coverage_reached cfg (pop_sum (topup_step s ns k)) tot))"
proof (induction ns arbitrary: s)
  case Nil
  have "add_metros cfg tot [] s = topup_step s [] 0" by (simp add: topup_step_def)
  then show ?case by auto
next
  case (Cons r ns)
  let ?s' = "s @ [\<lparr>row = r, selection_method = Coverage_boost\<rparr>]"
  show ?case
  proof (cases "MAX_SAMPLE_SIZE cfg \<le> length s")
    case True
    then have "add_metros cfg tot (r # ns) s = topup_step s (r # ns) 0"
      by (simp add: topup_step_0)
    moreover have "MAX_SAMPLE_SIZE cfg \<le> length (topup_step s (r # ns) 0)"
      using True by (simp add: topup_step_0)
    ultimately show ?thesis by (intro exI[of _ 0]) simp
  next
    case small: False
    show ?thesis
    proof (cases "coverage_reached cfg (pop_sum ?s') tot")
      case True
      have one: "topup_step s (r # ns) (Suc 0) = ?s'"
        unfolding topup_step_Cons by (rule topup_step_0)
      have e: "add_metros cfg tot (r # ns) s = topup_step s (r # ns) (Suc 0)"
        unfolding one using small True by (simp add: Let_def)
      have a: "\<forall>i<Suc 0. length (topup_step s (r # ns) i) < MAX_SAMPLE_SIZE cfg"
        using small by (simp add: topup_step_0)
      have b: "\<forall>i. 0 < i \<and> i < Suc 0 \<longrightarrow>
          \<not> coverage_reached cfg (pop_sum (topup_step s (r # ns) i)) tot"
        by simp
      have c: "0 < Suc 0 \<and> coverage_reached cfg (pop_sum (topup_step s (r # ns) (Suc 0))) tot"
        unfolding one using True by simp
      have "Suc 0 \<le> length (r # ns)" by simp
      then show ?thesis using e a b c by blast
    next
      case nr: False
      obtain k where k: "k \<le> length ns"
        and e: "add_metros cfg tot ns ?s' = topup_step ?s' ns k"
        and a: "\<forall>i<k. length (topup_step ?s' ns i) < MAX_SAMPLE_SIZE cfg"
        and b: "\<forall>i. 0 < i \<and> i < k \<longrightarrow> \<not> coverage_reached cfg (pop_sum (topup_step ?s' ns i)) tot"
        and c: "k = length ns \<or> MAX_SAMPLE_SIZE cfg \<le> length (topup_step ?s' ns k) \<or>
                (0 < k \<and> coverage_reached cfg (pop_sum (topup_step ?s' ns k)) tot)"
        using Cons.IH[of ?s'] by blast
      have e': "add_metros cfg tot (r # ns) s = topup_step s (r # ns) (Suc k)"
        unfolding topup_step_Cons using small nr e by (simp add: Let_def)
      have a': "\<forall>i<Suc k. length (topup_step s (r # ns) i) < MAX_SAMPLE_SIZE cfg"
      proof (intro allI impI)
        fix i
        assume i: "i < Suc k"
        show "length (topup_step s (r # ns) i) < MAX_SAMPLE_SIZE cfg"
        proof (cases i)
          case 0
          then show ?thesis using small by (simp add: topup_step_0)
        next
          case (Suc j)
          then have "j < k" using i by simp
          then show ?thesis unfolding Suc topup_step_Cons using a by blast
        qed
      qed
      have b': "\<forall>i. 0 < i \<and> i < Suc k \<longrightarrow>
          \<not> coverage_reached cfg (pop_sum (topup_step s (r # ns) i)) tot"
      proof (intro allI impI)
        fix i
        assume i: "0 < i \<and> i < Suc k"
        then obtain j where j: "i = Suc j" by (cases i) auto
        then have jk: "j < k" using i by simp
        show "\<not> coverage_reached cfg (pop_sum (topup_step s (r # ns) i)) tot"
        proof (cases "j = 0")
          case True
          then show ?thesis unfolding j topup_step_Cons using nr by (simp add: topup_step_0)
        next
          case False
          then have "0 < j \<and> j < k" using jk by simp
          then show ?thesis unfolding j topup_step_Cons using b by blast
        qed
      qed
      have c': "Suc k = length (r # ns) \<or>
          MAX_SAMPLE_SIZE cfg \<le> length (topup_step s (r # ns) (Suc k)) \<or>
          (0 < Suc k \<and> coverage_reached cfg (pop_sum (topup_step s (r # ns) (Suc k))) tot)"
        unfolding topup_step_Cons using c by auto
      have "Suc k \<le> length (r # ns)" using k by simp
      then show ?thesis using e' a' b' c' by blast
    qed
  qed
qed

lemma pop_sum_append: "pop_sum (s @ t) = pop_sum s + pop_sum t"
  by (simp add: pop_sum_def)

lemma pop_sum_step:
  "pop_sum (topup_step s ns i) = pop_sum s + sum_list (map population (take i ns))"
  by (simp add: topup_step_def pop_sum_def comp_def)

lemma sum_list_perm:
  fixes f :: "'a \<Rightarrow> nat"
  shows "mset xs = mset ys \<Longrightarrow> sum_list (map f xs) = sum_list (map f ys)"
proof -
  assume "mset xs = mset ys"
  then have "mset (map f xs) = mset (map f ys)" by simp
  then have "sum_mset (mset (map f xs)) = sum_mset (mset (map f ys))" by simp
  then show ?thesis unfolding sum_mset_sum_list .
qed

lemma sum_list_partition:
  fixes f :: "'a \<Rightarrow> nat"
  shows "sum_list (map f xs) =
     sum_list (map f (filter P xs)) + sum_list (map f (filter (\<lambda>x. \<not> P x) xs))"
  by (induction xs) auto

lemma sample_rows_eq:
  assumes ids: "distinct (map cbsa_code df)"
    and sub: "mset (map row s) \<subseteq># mset (assign_strata df)"
  shows "mset (map row s) =
     mset (filter (\<lambda>r. cbsa_code r \<in> set (map (\<lambda>t. cbsa_code (row t)) s)) (assign_strata df))"
proof -
  let ?all = "assign_strata df"
  let ?in = "\<lambda>r. cbsa_code r \<in> set (map (\<lambda>t. cbsa_code (row t)) s)"
  have "distinct (map cbsa_code ?all)" unfolding ids_assign_strata by (rule ids)
  then have d: "distinct ?all" and inj: "inj_on cbsa_code (set ?all)"
    by (simp_all add: distinct_map)
  have ds: "distinct (map row s)" using sub d by (rule sub_distinct)
  have mem: "\<And>x. x \<in> set (map row s) \<Longrightarrow> x \<in> set ?all"
  proof -
    fix x
    assume "x \<in> set (map row s)"
    then have "x \<in># mset (map row s)" by simp
    then have "x \<in># mset ?all" using sub by (rule mset_subset_eqD[rotated])
    then show "x \<in> set ?all" by simp
  qed
  have se: "set (map row s) = set (filter ?in ?all)"
  proof (intro equalityI subsetI)
    fix x
    assume x: "x \<in> set (map row s)"
    then have "?in x" by auto
    then show "x \<in> set (filter ?in ?all)" using mem[OF x] by simp
  next
    fix x
    assume "x \<in> set (filter ?in ?all)"
    then have x: "x \<in> set ?all" and "?in x" by simp_all
    then obtain t where t: "t \<in> set s" and c: "cbsa_code (row t) = cbsa_code x" by auto
    have "row t \<in> set ?all" using t by (intro mem) simp
    then have "row t = x" by (rule inj_onD[OF inj c _ x])
    then show "x \<in> set (map row s)" using t by auto
  qed
  have df: "distinct (filter ?in ?all)" using d by simp
  show ?thesis by (rule set_eq_iff_mset_eq_distinct[OF ds df, THEN iffD1, OF se])
qed

lemma total_split:
  assumes ids: "distinct (map cbsa_code df)"
    and sub: "mset (map row s) \<subseteq># mset (assign_strata df)"
  shows "total_pop df = pop_sum s + sum_list (map population (needed df s))"
proof -
  let ?all = "assign_strata df"
  let ?in = "\<lambda>r. cbsa_code r \<in> set (map (\<lambda>t. cbsa_code (row t)) s)"
  have "pop_sum s = sum_list (map population (map row s))" by (simp add: pop_sum_def comp_def)
  also have "\<dots> = sum_list (map population (filter ?in ?all))"
    using sample_rows_eq[OF ids sub] by (rule sum_list_perm)
  finally have a: "pop_sum s = sum_list (map population (filter ?in ?all))" .
  have "mset (needed df s) = mset (filter (\<lambda>r. \<not> ?in r) ?all)" by (simp add: needed_def)
  then have b: "sum_list (map population (needed df s)) =
      sum_list (map population (filter (\<lambda>r. \<not> ?in r) ?all))"
    by (rule sum_list_perm)
  show ?thesis unfolding total_pop_def a b by (rule sum_list_partition)
qed

lemma needed_sorted: "sorted (map (\<lambda>r. - int (population r)) (needed df s))"
  by (simp add: needed_def)

lemma needed_set:
  "set (needed df s) =
     {r \<in> set (assign_strata df). cbsa_code r \<notin> set (map (\<lambda>t. cbsa_code (row t)) s)}"
  by (auto simp: needed_def)

lemma needed_ids_distinct:
  assumes "distinct (map cbsa_code df)"
  shows "distinct (map cbsa_code (needed df s))"
proof -
  let ?f = "filter (\<lambda>r. cbsa_code r \<notin> set (map (\<lambda>t. cbsa_code (row t)) s)) (assign_strata df)"
  have "distinct (map cbsa_code (assign_strata df))" unfolding ids_assign_strata by (rule assms)
  then have "distinct (map cbsa_code ?f)" by (rule distinct_map_filter)
  moreover have "mset (map cbsa_code (needed df s)) = mset (map cbsa_code ?f)"
    by (simp add: needed_def)
  ultimately show ?thesis using mset_eq_imp_distinct_iff by blast
qed

lemma desc_nth:
  assumes "sorted (map (\<lambda>r. - int (population r)) ns)" "i \<le> j" "j < length ns"
  shows "population (ns ! j) \<le> population (ns ! i)"
proof -
  have "map (\<lambda>r. - int (population r)) ns ! i \<le> map (\<lambda>r. - int (population r)) ns ! j"
    using assms by (intro sorted_nth_mono) simp_all
  then show ?thesis using assms by simp
qed

lemma sum_list_zero_nat: "\<forall>x \<in> set xs. f x = (0::nat) \<Longrightarrow> sum_list (map f xs) = 0"
  by (induction xs) auto

lemma positive_head:
  assumes s: "sorted (map (\<lambda>r. - int (population r)) ns)"
    and p: "0 < sum_list (map population (drop i ns))"
  shows "i < length ns \<and> 0 < population (ns ! i)"
proof -
  have "\<exists>x \<in> set (drop i ns). 0 < population x"
  proof (rule ccontr)
    assume "\<not> (\<exists>x \<in> set (drop i ns). 0 < population x)"
    then have "\<forall>x \<in> set (drop i ns). population x = 0" by simp
    then have "sum_list (map population (drop i ns)) = 0" by (rule sum_list_zero_nat)
    then show False using p by linarith
  qed
  then obtain x where x: "x \<in> set (drop i ns)" and px: "0 < population x" by blast
  then obtain j where j: "j < length (drop i ns)" and xj: "drop i ns ! j = x"
    unfolding in_set_conv_nth by blast
  have il: "i < length ns" using j by simp
  have ij: "i + j < length ns" using j by simp
  have "x = ns ! (i + j)" using xj ij by simp
  moreover have "population (ns ! (i + j)) \<le> population (ns ! i)"
    using s _ ij by (rule desc_nth) simp
  ultimately show ?thesis using px il by simp
qed

lemma draw_strata_length:
  assumes swr: "sample_without_replacement lib"
  shows "\<forall>p \<in> set al. 0 \<le> snd p \<Longrightarrow>
    int (length (concat (draw_strata lib w seed k pool al))) \<le> alloc_total al"
proof (induction al arbitrary: k)
  case Nil
  then show ?case by (simp add: alloc_total_def)
next
  case (Cons p al)
  obtain s a where p: "p = (s, a)" by (cases p)
  let ?ps = "filter (\<lambda>r. stratum r = s) pool"
  let ?n = "min a (int (length ?ps))"
  have a0: "0 \<le> a" and rest: "\<forall>p \<in> set al. 0 \<le> snd p" using Cons.prems p by simp_all
  have t: "alloc_total (p # al) = a + alloc_total al" unfolding p by (simp add: alloc_total_def)
  show ?case
  proof (cases "0 < ?n")
    case True
    let ?part = "pd_sample lib w (Some (rng_integers lib w (Some seed) k)) (nat ?n) ?ps"
    have "nat ?n \<le> length ?ps" by simp
    then have "length ?part = nat ?n"
      using swr unfolding sample_without_replacement_def by blast
    then have l: "int (length ?part) \<le> a" using True by simp
    have e: "concat (draw_strata lib w seed k pool (p # al)) =
        ?part @ concat (draw_strata lib w seed (Suc k) pool al)"
      unfolding p using True by (simp add: Let_def)
    have "int (length (concat (draw_strata lib w seed (Suc k) pool al))) \<le> alloc_total al"
      using Cons.IH[OF rest] .
    then show ?thesis unfolding e t using l by simp
  next
    case False
    have e: "concat (draw_strata lib w seed k pool (p # al)) = concat (draw_strata lib w seed k pool al)"
      unfolding p using False by (simp only: draw_strata.simps Let_def if_False)
    have "int (length (concat (draw_strata lib w seed k pool al))) \<le> alloc_total al"
      using Cons.IH[OF rest] .
    then show ?thesis unfolding e t using a0 by simp
  qed
qed

lemma combined_length:
  assumes swr: "sample_without_replacement lib"
    and sz: "TOP_N_MANDATORY cfg \<le> TARGET_SAMPLE_SIZE cfg"
  shows "length (combined lib w cfg df) \<le> TARGET_SAMPLE_SIZE cfg"
proof -
  have inv: "alloc_inv (stratum_counts cfg df) (allocation cfg df)"
    and tot: "alloc_total (allocation cfg df) \<le> slots_left cfg df"
    using allocation_inv[OF sz] by simp_all
  have d: "distinct (map fst (allocation cfg df))" by (rule allocation_keys)
  have "\<forall>p \<in> set (allocation cfg df). 0 \<le> snd p"
  proof
    fix p
    assume p: "p \<in> set (allocation cfg df)"
    then have "(fst p, snd p) \<in> set (allocation cfg df)" by simp
    then have "lookup (allocation cfg df) (fst p) = snd p" using d by (intro lookup_mem)
    then show "0 \<le> snd p" using inv unfolding alloc_inv_def by metis
  qed
  then have "int (length (concat (sampled_parts lib w cfg df))) \<le> alloc_total (allocation cfg df)"
    unfolding sampled_parts_def by (rule draw_strata_length[OF swr])
  then have "int (length (concat (sampled_parts lib w cfg df))) \<le> slots_left cfg df"
    using tot by simp
  then have "int (length (mandatory cfg df)) + int (length (sampled lib w cfg df))
      \<le> int (TARGET_SAMPLE_SIZE cfg)"
    by (simp add: slots_left_def sampled_def)
  then show ?thesis by (simp add: combined_def)
qed

lemma ids_step:
  "set (map (\<lambda>t. cbsa_code (row t)) (topup_step s ns i)) =
   set (map (\<lambda>t. cbsa_code (row t)) s) \<union> set (map cbsa_code (take i ns))"
  by (auto simp: topup_step_def)

lemma greedy_choice:
  assumes ids: "distinct (map cbsa_code df)" and i: "i < length (needed df s)"
  shows "needed df s ! i \<in> set (assign_strata df) \<and>
     cbsa_code (needed df s ! i) \<notin> set (map (\<lambda>t. cbsa_code (row t)) (topup_step s (needed df s) i)) \<and>
     (\<forall>r \<in> set (assign_strata df).
        cbsa_code r \<notin> set (map (\<lambda>t. cbsa_code (row t)) (topup_step s (needed df s) i)) \<longrightarrow>
        population r \<le> population (needed df s ! i))"
proof -
  let ?ns = "needed df s"
  let ?ids = "set (map (\<lambda>t. cbsa_code (row t)) s)"
  have d: "distinct (map cbsa_code ?ns)" by (rule needed_ids_distinct[OF ids])
  have "?ns ! i \<in> set ?ns" using i by simp
  then have m: "?ns ! i \<in> set (assign_strata df)" and o: "cbsa_code (?ns ! i) \<notin> ?ids"
    unfolding needed_set by simp_all
  have t: "cbsa_code (?ns ! i) \<notin> set (map cbsa_code (take i ?ns))"
  proof
    assume "cbsa_code (?ns ! i) \<in> set (map cbsa_code (take i ?ns))"
    then obtain j where j: "j < length (take i ?ns)"
      and e: "map cbsa_code (take i ?ns) ! j = cbsa_code (?ns ! i)"
      unfolding in_set_conv_nth by auto
    have ji: "j < i" using j by simp
    then have eq: "map cbsa_code ?ns ! j = map cbsa_code ?ns ! i" using e i j by simp
    have jl: "j < length (map cbsa_code ?ns)" using ji i by simp
    have il: "i < length (map cbsa_code ?ns)" using i by simp
    have "j = i" by (rule nth_eq_iff_index_eq[OF d jl il, THEN iffD1, OF eq])
    then show False using ji by simp
  qed
  have g: "\<forall>r \<in> set (assign_strata df).
        cbsa_code r \<notin> set (map (\<lambda>t. cbsa_code (row t)) (topup_step s ?ns i)) \<longrightarrow>
        population r \<le> population (?ns ! i)"
  proof (intro ballI impI)
    fix r
    assume r: "r \<in> set (assign_strata df)"
      and n: "cbsa_code r \<notin> set (map (\<lambda>t. cbsa_code (row t)) (topup_step s ?ns i))"
    have n1: "cbsa_code r \<notin> ?ids" and n2: "cbsa_code r \<notin> set (map cbsa_code (take i ?ns))"
      using n unfolding ids_step by simp_all
    have "r \<in> set ?ns" unfolding needed_set using r n1 by simp
    then obtain j where j: "j < length ?ns" and rj: "?ns ! j = r"
      unfolding in_set_conv_nth by blast
    have "i \<le> j"
    proof (rule ccontr)
      assume "\<not> i \<le> j"
      then have "j < i" by simp
      then have "take i ?ns ! j = r" using rj by simp
      moreover have "j < length (take i ?ns)" using \<open>j < i\<close> i by simp
      ultimately have "r \<in> set (take i ?ns)" unfolding in_set_conv_nth by blast
      then show False using n2 by simp
    qed
    then have "population (?ns ! j) \<le> population (?ns ! i)"
      using needed_sorted j by (intro desc_nth)
    then show "population r \<le> population (?ns ! i)" unfolding rj .
  qed
  show ?thesis using m o t g unfolding ids_step by simp
qed

lemma strict_step:
  assumes split: "tot = pop_sum s + sum_list (map population ns)"
    and srt: "sorted (map (\<lambda>r. - int (population r)) ns)"
    and lt: "pop_sum (topup_step s ns i) < tot"
  shows "i < length ns \<and> pop_sum (topup_step s ns i) < pop_sum (topup_step s ns (Suc i))"
proof -
  have "sum_list (map population ns) =
      sum_list (map population (take i ns)) + sum_list (map population (drop i ns))"
    unfolding sum_list_append[symmetric] map_append[symmetric] append_take_drop_id ..
  then have "0 < sum_list (map population (drop i ns))"
    using lt unfolding split pop_sum_step by simp
  then have h: "i < length ns \<and> 0 < population (ns ! i)"
    using srt by (intro positive_head)
  then have "pop_sum (topup_step s ns (Suc i)) = pop_sum (topup_step s ns i) + population (ns ! i)"
    by (simp add: topup_step_Suc pop_sum_append pop_sum_def)
  then show ?thesis using h by simp
qed

lemma not_reached:
  assumes t: "t \<noteq> 0" and n: "\<not> coverage_reached cfg p t" and f: "MIN_POPULATION_COVERAGE cfg \<le> 1"
  shows "p < t \<and> of_nat p / of_nat t < MIN_POPULATION_COVERAGE cfg"
proof -
  have a: "(of_nat p :: rat) / of_nat t < MIN_POPULATION_COVERAGE cfg"
    using t n by (simp add: coverage_reached_def not_le)
  then have "(of_nat p :: rat) / of_nat t < 1" using f by simp
  moreover have "(0::rat) < of_nat t" using t by simp
  ultimately have "(of_nat p :: rat) < of_nat t" by (simp add: pos_divide_less_eq)
  then have "p < t" by (simp only: of_nat_less_iff)
  then show ?thesis using a by simp
qed

lemma below_not_reached: "coverage_below cfg p t \<Longrightarrow> t \<noteq> 0 \<and> \<not> coverage_reached cfg p t"
  by (simp add: coverage_below_def coverage_reached_def not_le)

lemma topup_run:
  assumes below: "coverage_below cfg (pop_sum (combined lib w cfg df)) (total_pop df)"
  shows "topup_count lib w cfg df \<le> length (needed df (combined lib w cfg df)) \<and>
     coverage_topup cfg df (combined lib w cfg df) = sample_after lib w cfg df (topup_count lib w cfg df) \<and>
     (\<forall>i<topup_count lib w cfg df. length (sample_after lib w cfg df i) < MAX_SAMPLE_SIZE cfg) \<and>
     (\<forall>i<topup_count lib w cfg df.
        \<not> coverage_reached cfg (pop_sum (sample_after lib w cfg df i)) (total_pop df)) \<and>
     (topup_count lib w cfg df = length (needed df (combined lib w cfg df)) \<or>
      MAX_SAMPLE_SIZE cfg \<le> length (coverage_topup cfg df (combined lib w cfg df)) \<or>
      coverage_reached cfg (pop_sum (coverage_topup cfg df (combined lib w cfg df))) (total_pop df))"
proof -
  let ?s = "combined lib w cfg df"
  let ?ns = "needed df ?s"
  let ?tot = "total_pop df"
  obtain k where k: "k \<le> length ?ns"
    and e: "add_metros cfg ?tot ?ns ?s = topup_step ?s ?ns k"
    and a: "\<forall>i<k. length (topup_step ?s ?ns i) < MAX_SAMPLE_SIZE cfg"
    and b: "\<forall>i. 0 < i \<and> i < k \<longrightarrow> \<not> coverage_reached cfg (pop_sum (topup_step ?s ?ns i)) ?tot"
    and c: "k = length ?ns \<or> MAX_SAMPLE_SIZE cfg \<le> length (topup_step ?s ?ns k) \<or>
            (0 < k \<and> coverage_reached cfg (pop_sum (topup_step ?s ?ns k)) ?tot)"
    using add_metros_run[of ?ns cfg ?tot ?s] by blast
  have r: "coverage_topup cfg df ?s = topup_step ?s ?ns k"
    unfolding coverage_topup_def using below e by simp
  have kc: "topup_count lib w cfg df = k"
    unfolding topup_count_def r using k by (simp add: length_topup_step)
  have b0: "\<not> coverage_reached cfg (pop_sum (topup_step ?s ?ns 0)) ?tot"
    unfolding topup_step_0 using below_not_reached[OF below] by simp
  have b': "\<forall>i<k. \<not> coverage_reached cfg (pop_sum (topup_step ?s ?ns i)) ?tot"
  proof (intro allI impI)
    fix i
    assume "i < k"
    show "\<not> coverage_reached cfg (pop_sum (topup_step ?s ?ns i)) ?tot"
    proof (cases "i = 0")
      case True
      then show ?thesis using b0 by simp
    next
      case False
      then have "0 < i \<and> i < k" using \<open>i < k\<close> by simp
      then show ?thesis using b by blast
    qed
  qed
  show ?thesis unfolding kc sample_after_def r using k a b' c by blast
qed

text \<open>
  Claim C6. Whenever the coverage of the combined mandatory and stratified-random sample is
  below \<open>MIN_POPULATION_COVERAGE\<close>, the top-up phase makes \<open>topup_count\<close> additions, and for
  each of them: the region added is a region of the universe outside the current sample with
  the largest population among those (so regions are added in descending population order);
  the addition strictly increases the coverage; and before it the coverage was still below
  the target and the sample shorter than \<open>MAX_SAMPLE_SIZE\<close>. After the last addition the
  coverage is at or above the target or the sample has exactly \<open>MAX_SAMPLE_SIZE\<close> rows. This
  holds for universes with pairwise distinct ids, a target fraction of at most 1 and
  \<open>TOP_N_MANDATORY \<le> TARGET_SAMPLE_SIZE \<le> MAX_SAMPLE_SIZE\<close>, as in \<^verbatim>\<open>config.py\<close>; the sampler
  of pandas is taken to sample without replacement.
\<close>

theorem coverage_topup_greedy:
  assumes ids: "distinct (map cbsa_code df)"
    and swr: "sample_without_replacement lib"
    and frac: "MIN_POPULATION_COVERAGE cfg \<le> 1"
    and sz1: "TOP_N_MANDATORY cfg \<le> TARGET_SAMPLE_SIZE cfg"
    and sz2: "TARGET_SAMPLE_SIZE cfg \<le> MAX_SAMPLE_SIZE cfg"
    and below: "coverage_below cfg (pop_sum (combined lib w cfg df)) (total_pop df)"
  shows "coverage_topup cfg df (combined lib w cfg df)
           = sample_after lib w cfg df (topup_count lib w cfg df) \<and>
     0 < total_pop df \<and>
     (\<forall>i<topup_count lib w cfg df.
        i < length (needed df (combined lib w cfg df)) \<and>
        sample_after lib w cfg df (Suc i) =
          sample_after lib w cfg df i @
            [\<lparr>row = needed df (combined lib w cfg df) ! i, selection_method = Coverage_boost\<rparr>] \<and>
        needed df (combined lib w cfg df) ! i \<in> set (assign_strata df) \<and>
        cbsa_code (needed df (combined lib w cfg df) ! i)
          \<notin> set (map (\<lambda>t. cbsa_code (row t)) (sample_after lib w cfg df i)) \<and>
        (\<forall>r \<in> set (assign_strata df).
           cbsa_code r \<notin> set (map (\<lambda>t. cbsa_code (row t)) (sample_after lib w cfg df i)) \<longrightarrow>
           population r \<le> population (needed df (combined lib w cfg df) ! i)) \<and>
        coverage (sample_after lib w cfg df i) df < coverage (sample_after lib w cfg df (Suc i)) df \<and>
        coverage (sample_after lib w cfg df i) df < MIN_POPULATION_COVERAGE cfg \<and>
        length (sample_after lib w cfg df i) < MAX_SAMPLE_SIZE cfg) \<and>
     (MIN_POPULATION_COVERAGE cfg \<le> coverage (coverage_topup cfg df (combined lib w cfg df)) df \<or>
      length (coverage_topup cfg df (combined lib w cfg df)) = MAX_SAMPLE_SIZE cfg)"
proof -
  let ?s = "combined lib w cfg df"
  let ?ns = "needed df ?s"
  let ?tot = "total_pop df"
  let ?k = "topup_count lib w cfg df"
  let ?step = "sample_after lib w cfg df"
  have kl: "?k \<le> length ?ns"
    and e: "coverage_topup cfg df ?s = ?step ?k"
    and a: "\<forall>i<?k. length (?step i) < MAX_SAMPLE_SIZE cfg"
    and b: "\<forall>i<?k. \<not> coverage_reached cfg (pop_sum (?step i)) ?tot"
    and c: "?k = length ?ns \<or> MAX_SAMPLE_SIZE cfg \<le> length (coverage_topup cfg df ?s) \<or>
            coverage_reached cfg (pop_sum (coverage_topup cfg df ?s)) ?tot"
    using topup_run[OF below] by blast+
  have tot0: "?tot \<noteq> 0" using below_not_reached[OF below] by simp
  then have totp: "(0::rat) < of_nat ?tot" by simp
  have sub: "mset (map row ?s) \<subseteq># mset (assign_strata df)" by (rule combined_rows_sub[OF swr])
  have split: "?tot = pop_sum ?s + sum_list (map population ?ns)" by (rule total_split[OF ids sub])
  have each: "\<forall>i<?k.
        i < length ?ns \<and>
        ?step (Suc i) = ?step i @ [\<lparr>row = ?ns ! i, selection_method = Coverage_boost\<rparr>] \<and>
        ?ns ! i \<in> set (assign_strata df) \<and>
        cbsa_code (?ns ! i) \<notin> set (map (\<lambda>t. cbsa_code (row t)) (?step i)) \<and>
        (\<forall>r \<in> set (assign_strata df).
           cbsa_code r \<notin> set (map (\<lambda>t. cbsa_code (row t)) (?step i)) \<longrightarrow>
           population r \<le> population (?ns ! i)) \<and>
        coverage (?step i) df < coverage (?step (Suc i)) df \<and>
        coverage (?step i) df < MIN_POPULATION_COVERAGE cfg \<and>
        length (?step i) < MAX_SAMPLE_SIZE cfg"
  proof (intro allI impI)
    fix i
    assume ik: "i < ?k"
    have nr: "\<not> coverage_reached cfg (pop_sum (?step i)) ?tot" using b ik by blast
    have lt: "pop_sum (?step i) < ?tot"
      and lm: "of_nat (pop_sum (?step i)) / of_nat ?tot < MIN_POPULATION_COVERAGE cfg"
      using not_reached[OF tot0 nr frac] by simp_all
    have il: "i < length ?ns" using ik kl by simp
    have st: "pop_sum (?step i) < pop_sum (?step (Suc i))"
      using strict_step[OF split needed_sorted, of i] lt unfolding sample_after_def by simp
    have su: "?step (Suc i) = ?step i @ [\<lparr>row = ?ns ! i, selection_method = Coverage_boost\<rparr>]"
      unfolding sample_after_def using il by (rule topup_step_Suc)
    have gc: "?ns ! i \<in> set (assign_strata df) \<and>
        cbsa_code (?ns ! i) \<notin> set (map (\<lambda>t. cbsa_code (row t)) (?step i)) \<and>
        (\<forall>r \<in> set (assign_strata df).
           cbsa_code r \<notin> set (map (\<lambda>t. cbsa_code (row t)) (?step i)) \<longrightarrow>
           population r \<le> population (?ns ! i))"
      unfolding sample_after_def by (rule greedy_choice[OF ids il])
    have "(of_nat (pop_sum (?step i)) :: rat) < of_nat (pop_sum (?step (Suc i)))"
      using st by (simp only: of_nat_less_iff)
    then have cs: "coverage (?step i) df < coverage (?step (Suc i)) df"
      unfolding coverage_def using totp by (rule divide_strict_right_mono)
    have cm: "coverage (?step i) df < MIN_POPULATION_COVERAGE cfg"
      unfolding coverage_def by (rule lm)
    have ln: "length (?step i) < MAX_SAMPLE_SIZE cfg" using a ik by blast
    show "i < length ?ns \<and>
        ?step (Suc i) = ?step i @ [\<lparr>row = ?ns ! i, selection_method = Coverage_boost\<rparr>] \<and>
        ?ns ! i \<in> set (assign_strata df) \<and>
        cbsa_code (?ns ! i) \<notin> set (map (\<lambda>t. cbsa_code (row t)) (?step i)) \<and>
        (\<forall>r \<in> set (assign_strata df).
           cbsa_code r \<notin> set (map (\<lambda>t. cbsa_code (row t)) (?step i)) \<longrightarrow>
           population r \<le> population (?ns ! i)) \<and>
        coverage (?step i) df < coverage (?step (Suc i)) df \<and>
        coverage (?step i) df < MIN_POPULATION_COVERAGE cfg \<and>
        length (?step i) < MAX_SAMPLE_SIZE cfg"
      using il su gc cs cm ln by blast
  qed
  have len: "length (coverage_topup cfg df ?s) = length ?s + ?k"
    unfolding e sample_after_def using kl by (rule length_topup_step)
  have upper: "length (coverage_topup cfg df ?s) \<le> MAX_SAMPLE_SIZE cfg"
  proof (cases "?k = 0")
    case True
    have "length ?s \<le> TARGET_SAMPLE_SIZE cfg" by (rule combined_length[OF swr sz1])
    then show ?thesis unfolding len using True sz2 by simp
  next
    case False
    then have p: "?k - 1 < ?k" by simp
    then have "length (?step (?k - 1)) < MAX_SAMPLE_SIZE cfg" using a by blast
    moreover have "length (?step (?k - 1)) = length ?s + (?k - 1)"
      unfolding sample_after_def using kl by (intro length_topup_step) simp
    ultimately show ?thesis unfolding len using False by simp
  qed
  have fin: "MIN_POPULATION_COVERAGE cfg \<le> coverage (coverage_topup cfg df ?s) df \<or>
      length (coverage_topup cfg df ?s) = MAX_SAMPLE_SIZE cfg"
  proof -
    consider (all) "?k = length ?ns" | (full) "MAX_SAMPLE_SIZE cfg \<le> length (coverage_topup cfg df ?s)"
      | (reached) "coverage_reached cfg (pop_sum (coverage_topup cfg df ?s)) ?tot"
      using c by blast
    then show ?thesis
    proof cases
      case all
      have "pop_sum (coverage_topup cfg df ?s) = ?tot"
        unfolding e sample_after_def pop_sum_step all using split by simp
      then have "coverage (coverage_topup cfg df ?s) df = 1"
        unfolding coverage_def using tot0 by simp
      then show ?thesis using frac by simp
    next
      case full
      then show ?thesis using upper by simp
    next
      case reached
      then show ?thesis by (simp add: coverage_reached_def coverage_def)
    qed
  qed
  have "0 < ?tot" using tot0 by simp
  then show ?thesis using e each fin by blast
qed

lemma coverage_config_allocation:
  "allocation coverage_config example_universe =
     [(''Large_NoRail_NoSM_South'', 0), (''Medium_NoRail_NoSM_South'', 0),
      (''Small_NoRail_NoSM_South'', 0)]"
proof -
  have c: "stratum_counts coverage_config example_universe =
      [(''Large_NoRail_NoSM_South'', 1), (''Medium_NoRail_NoSM_South'', 1),
       (''Small_NoRail_NoSM_South'', 1)]"
    unfolding stratum_counts_def remaining_pool_def example_rows
    by (simp add: value_counts_def coverage_config_def example_row_def msa.extend_def)
  have s: "slots_left coverage_config example_universe = 0"
    unfolding slots_left_def mandatory_def mandatory_rows_def example_rows
    by (simp add: coverage_config_def)
  have r: "length (remaining_pool coverage_config example_universe) = 3"
    unfolding remaining_pool_def example_rows by (simp add: coverage_config_def)
  show ?thesis
    unfolding allocation_def Let_def c s r
    by (simp add: rebalance_numeral initial_allocation_def py_round_div_def alloc_total_def)
qed

lemma coverage_config_combined:
  "combined example_library 0 coverage_config example_universe =
     [\<lparr>row = example_row ''A'' 10000000 ''Mega'', selection_method = Mandatory_top10\<rparr>]"
proof -
  have "sampled_parts example_library 0 coverage_config example_universe = []"
    unfolding sampled_parts_def coverage_config_allocation by simp
  then show ?thesis
    unfolding combined_def sampled_def mandatory_def mandatory_rows_def example_rows
    by (simp add: coverage_config_def)
qed

lemma coverage_config_needed:
  "needed example_universe [\<lparr>row = example_row ''A'' 10000000 ''Mega'', selection_method = Mandatory_top10\<rparr>] =
     [example_row ''B'' 2000000 ''Large'', example_row ''C'' 600000 ''Medium'',
      example_row ''D'' 100000 ''Small'']"
  unfolding needed_def example_rows
  by (simp add: example_row_def msa.extend_def example_msa_def)

lemma coverage_config_topup:
  "coverage_topup coverage_config example_universe
     (combined example_library 0 coverage_config example_universe) =
     [\<lparr>row = example_row ''A'' 10000000 ''Mega'', selection_method = Mandatory_top10\<rparr>,
      \<lparr>row = example_row ''B'' 2000000 ''Large'', selection_method = Coverage_boost\<rparr>,
      \<lparr>row = example_row ''C'' 600000 ''Medium'', selection_method = Coverage_boost\<rparr>]"
  unfolding coverage_config_combined coverage_topup_def coverage_config_needed example_total_pop
  by (simp add: pop_sum_def coverage_below_def coverage_reached_def coverage_config_def
      example_row_def msa.extend_def example_msa_def)

lemma coverage_config_below:
  "coverage_below coverage_config
     (pop_sum (combined example_library 0 coverage_config example_universe))
     (total_pop example_universe)"
  unfolding coverage_config_combined example_total_pop
  by (simp add: pop_sum_def coverage_below_def coverage_config_def
      example_row_def msa.extend_def example_msa_def)

theorem coverage_topup_greedy_witness:
  "distinct (map cbsa_code example_universe) \<and> sample_without_replacement example_library \<and>
   MIN_POPULATION_COVERAGE coverage_config \<le> 1 \<and>
   TOP_N_MANDATORY coverage_config \<le> TARGET_SAMPLE_SIZE coverage_config \<and>
   TARGET_SAMPLE_SIZE coverage_config \<le> MAX_SAMPLE_SIZE coverage_config \<and>
   coverage_below coverage_config
     (pop_sum (combined example_library 0 coverage_config example_universe))
     (total_pop example_universe) \<and>
   topup_count example_library 0 coverage_config example_universe = 2 \<and>
   sample_after example_library 0 coverage_config example_universe 2 =
     [\<lparr>row = example_row ''A'' 10000000 ''Mega'', selection_method = Mandatory_top10\<rparr>,
      \<lparr>row = example_row ''B'' 2000000 ''Large'', selection_method = Coverage_boost\<rparr>,
      \<lparr>row = example_row ''C'' 600000 ''Medium'', selection_method = Coverage_boost\<rparr>] \<and>
   coverage (sample_after example_library 0 coverage_config example_universe 0) example_universe
     < coverage (sample_after example_library 0 coverage_config example_universe 1) example_universe \<and>
   coverage (sample_after example_library 0 coverage_config example_universe 1) example_universe
     < coverage (sample_after example_library 0 coverage_config example_universe 2) example_universe"
proof -
  have f: "MIN_POPULATION_COVERAGE coverage_config \<le> 1" by (simp add: coverage_config_def)
  have s1: "TOP_N_MANDATORY coverage_config \<le> TARGET_SAMPLE_SIZE coverage_config"
    by (simp add: coverage_config_def)
  have s2: "TARGET_SAMPLE_SIZE coverage_config \<le> MAX_SAMPLE_SIZE coverage_config"
    by (simp add: coverage_config_def)
  note t = coverage_topup_greedy[OF example_ids example_library_sample f s1 s2 coverage_config_below]
  have k: "topup_count example_library 0 coverage_config example_universe = 2"
    unfolding topup_count_def coverage_config_topup unfolding coverage_config_combined by simp
  have e: "sample_after example_library 0 coverage_config example_universe 2 =
     [\<lparr>row = example_row ''A'' 10000000 ''Mega'', selection_method = Mandatory_top10\<rparr>,
      \<lparr>row = example_row ''B'' 2000000 ''Large'', selection_method = Coverage_boost\<rparr>,
      \<lparr>row = example_row ''C'' 600000 ''Medium'', selection_method = Coverage_boost\<rparr>]"
    using t coverage_config_topup unfolding k by simp
  have i0: "(0::nat) < topup_count example_library 0 coverage_config example_universe"
    and i1: "(1::nat) < topup_count example_library 0 coverage_config example_universe"
    unfolding k by simp_all
  have c0: "coverage (sample_after example_library 0 coverage_config example_universe 0) example_universe
     < coverage (sample_after example_library 0 coverage_config example_universe (Suc 0)) example_universe"
    using t i0 by blast
  have c1: "coverage (sample_after example_library 0 coverage_config example_universe 1) example_universe
     < coverage (sample_after example_library 0 coverage_config example_universe (Suc 1)) example_universe"
    using t i1 by blast
  show ?thesis
    using example_ids example_library_sample f s1 s2 coverage_config_below k e c0 c1
    by (simp add: numeral_2_eq_2)
qed

lemma mod_two_examples: "(42::nat) mod Suc (Suc 0) = 0" "(43::nat) mod Suc (Suc 0) = Suc 0"
  by presburger+

lemma draw_small_first:
  "draw_strata example_library 0 42 0 two_strata_pool small_first =
     [[example_row ''P'' 300000 ''Small''], [example_row ''S'' 600000 ''Medium'']]"
  by (simp add: small_first_def two_strata_pool_def example_library_def example_row_def
      msa.extend_def example_msa_def mod_two_examples)

lemma draw_medium_first:
  "draw_strata example_library 0 42 0 two_strata_pool medium_first =
     [[example_row ''R'' 700000 ''Medium''], [example_row ''Q'' 200000 ''Small'']]"
  by (simp add: medium_first_def two_strata_pool_def example_library_def example_row_def
      msa.extend_def example_msa_def mod_two_examples)

text \<open>
  Claim C5 as stated fails: the draw loop takes the \<^verbatim>\<open>random_state\<close> of each stratum from one
  generator, an integer per stratum in iteration order, so the integer a stratum gets
  depends on its place in the order. With the example library and seed 42, on a pool of two
  strata of two rows each and one row to pick from each, visiting the stratum of small
  regions first draws \<open>P\<close> for it and visiting it second draws \<open>Q\<close>.
\<close>

theorem draw_order_counterexample:
  "mset medium_first = mset small_first \<and>
   drawn_for example_library 0 42 two_strata_pool small_first ''Small_NoRail_NoSM_South''
     = [example_row ''P'' 300000 ''Small''] \<and>
   drawn_for example_library 0 42 two_strata_pool medium_first ''Small_NoRail_NoSM_South''
     = [example_row ''Q'' 200000 ''Small''] \<and>
   set (drawn_for example_library 0 42 two_strata_pool small_first ''Small_NoRail_NoSM_South'')
     \<noteq> set (drawn_for example_library 0 42 two_strata_pool medium_first ''Small_NoRail_NoSM_South'')"
proof -
  have a: "drawn_for example_library 0 42 two_strata_pool small_first ''Small_NoRail_NoSM_South''
     = [example_row ''P'' 300000 ''Small'']"
    unfolding drawn_for_def draw_small_first
    by (simp add: example_row_def msa.extend_def example_msa_def)
  have b: "drawn_for example_library 0 42 two_strata_pool medium_first ''Small_NoRail_NoSM_South''
     = [example_row ''Q'' 200000 ''Small'']"
    unfolding drawn_for_def draw_medium_first
    by (simp add: example_row_def msa.extend_def example_msa_def)
  have c: "mset medium_first = mset small_first"
    by (simp add: medium_first_def small_first_def)
  have d: "example_row ''P'' 300000 ''Small'' \<noteq> example_row ''Q'' 200000 ''Small''"
    by (simp add: example_row_def msa.extend_def example_msa_def)
  show ?thesis unfolding a b using c d by simp
qed

lemma draw_strata_append:
  "draw_strata lib w seed k pool (before @ after) =
     draw_strata lib w seed k pool before
       @ draw_strata lib w seed (k + positive_picks pool before) pool after"
proof (induction before arbitrary: k)
  case Nil
  then show ?case by (simp add: positive_picks_def)
next
  case (Cons p before)
  obtain s a where p: "p = (s, a)" by (cases p)
  let ?n = "min a (int (length (filter (\<lambda>r. stratum r = s) pool)))"
  show ?case
  proof (cases "0 < ?n")
    case True
    have pp: "positive_picks pool (p # before) = Suc (positive_picks pool before)"
      unfolding p positive_picks_def using True by simp
    have "draw_strata lib w seed k pool ((p # before) @ after) =
        pd_sample lib w (Some (rng_integers lib w (Some seed) k)) (nat ?n)
          (filter (\<lambda>r. stratum r = s) pool)
        # draw_strata lib w seed (Suc k) pool (before @ after)"
      unfolding p using True by (simp add: Let_def)
    moreover have "draw_strata lib w seed k pool (p # before) =
        pd_sample lib w (Some (rng_integers lib w (Some seed) k)) (nat ?n)
          (filter (\<lambda>r. stratum r = s) pool)
        # draw_strata lib w seed (Suc k) pool before"
      unfolding p using True by (simp add: Let_def)
    ultimately show ?thesis unfolding pp Cons.IH[of "Suc k"] by simp
  next
    case False
    have pp: "positive_picks pool (p # before) = positive_picks pool before"
      unfolding p positive_picks_def using False by simp
    have "draw_strata lib w seed k pool ((p # before) @ after) =
        draw_strata lib w seed k pool (before @ after)"
      unfolding p append_Cons using False by (simp only: draw_strata.simps Let_def if_False)
    moreover have "draw_strata lib w seed k pool (p # before) =
        draw_strata lib w seed k pool before"
      unfolding p using False by (simp only: draw_strata.simps Let_def if_False)
    ultimately show ?thesis unfolding pp Cons.IH[of k] by simp
  qed
qed

text \<open>
  Claim C5, amended. For a fixed seed and fixed pools, the rows drawn for a stratum are what
  \<^verbatim>\<open>DataFrame.sample\<close> returns for its pool and its pick count with, as \<^verbatim>\<open>random_state\<close>, the
  \<open>j\<close>-th integer of the generator seeded with the seed, where \<open>j\<close> is the number of strata
  iterated before it for which a pick is made; the strata before it are drawn as if it were
  absent and the strata after it with the following integers. So the iteration order changes
  the rows drawn for a stratum only through \<open>j\<close>.
\<close>

theorem draw_depends_on_position:
  "draw_strata lib w seed 0 pool (before @ (s, n_pick) # after) =
     draw_strata lib w seed 0 pool before @
     (let pool_s = filter (\<lambda>r. stratum r = s) pool;
          n = min n_pick (int (length pool_s));
          j = positive_picks pool before
      in if 0 < n
         then pd_sample lib w (Some (rng_integers lib w (Some seed) j)) (nat n) pool_s
                # draw_strata lib w seed (Suc j) pool after
         else draw_strata lib w seed j pool after)"
  unfolding draw_strata_append by (simp add: Let_def)

theorem draw_depends_on_position_witness:
  "positive_picks two_strata_pool [] = 0 \<and>
   positive_picks two_strata_pool [(''Medium_NoRail_NoSM_South'', 1)] = 1 \<and>
   draw_strata example_library 0 42 0 two_strata_pool
     ([] @ (''Small_NoRail_NoSM_South'', 1) # [(''Medium_NoRail_NoSM_South'', 1)]) =
     [pd_sample example_library 0 (Some (rng_integers example_library 0 (Some 42) 0)) 1
        [example_row ''P'' 300000 ''Small'', example_row ''Q'' 200000 ''Small''],
      [example_row ''S'' 600000 ''Medium'']] \<and>
   draw_strata example_library 0 42 0 two_strata_pool
     ([(''Medium_NoRail_NoSM_South'', 1)] @ (''Small_NoRail_NoSM_South'', 1) # []) =
     [[example_row ''R'' 700000 ''Medium''],
      pd_sample example_library 0 (Some (rng_integers example_library 0 (Some 42) 1)) 1
        [example_row ''P'' 300000 ''Small'', example_row ''Q'' 200000 ''Small'']]"
proof -
  have f: "filter (\<lambda>r. stratum r = ''Small_NoRail_NoSM_South'') two_strata_pool =
      [example_row ''P'' 300000 ''Small'', example_row ''Q'' 200000 ''Small'']"
    by (simp add: two_strata_pool_def example_row_def msa.extend_def example_msa_def)
  have p0: "positive_picks two_strata_pool [] = 0" by (simp add: positive_picks_def)
  have p1: "positive_picks two_strata_pool [(''Medium_NoRail_NoSM_South'', 1)] = 1"
    by (simp add: positive_picks_def two_strata_pool_def example_row_def msa.extend_def
        example_msa_def)
  have g: "filter (\<lambda>r. stratum r = ''Medium_NoRail_NoSM_South'') two_strata_pool =
      [example_row ''R'' 700000 ''Medium'', example_row ''S'' 600000 ''Medium'']"
    by (simp add: two_strata_pool_def example_row_def msa.extend_def example_msa_def)
  show ?thesis
    using draw_depends_on_position[of example_library 0 42 two_strata_pool
        "[]" "''Small_NoRail_NoSM_South''" 1 "[(''Medium_NoRail_NoSM_South'', 1)]"]
      draw_depends_on_position[of example_library 0 42 two_strata_pool
        "[(''Medium_NoRail_NoSM_South'', 1)]" "''Small_NoRail_NoSM_South''" 1 "[]"]
    by (simp add: f g p0 p1 Let_def example_library_def mod_two_examples)
qed

section \<open>Properties of the region resolver\<close>

lemma fold_concat_map: "fold f (concat (map g xs)) s = fold (\<lambda>x. fold f (g x)) xs s"
  by (induction xs arbitrary: s) auto

lemma add_event_apply: "add_event (city, states, cbsa) = add_city states cbsa city"
  by (rule ext) (simp add: add_event_def)

lemma add_row_events:
  "add_row r idx =
     fold add_event (map (\<lambda>city. (city, snd (parse_msa (fst r)), snd r)) (fst (parse_msa (fst r)))) idx"
  by (simp add: add_row_def add_event_apply fold_map comp_def case_prod_beta)

lemma build_index_events: "build_index census = fold add_event (city_events census) empty_index"
proof -
  have "(\<lambda>r. fold add_event (map (\<lambda>city. (city, snd (parse_msa (fst r)), snd r)) (fst (parse_msa (fst r)))))
      = add_row"
    by (rule ext)+ (simp add: add_row_events)
  then show ?thesis
    unfolding build_index_def city_events_def fold_concat_map by simp
qed

lemma city_only_add_city:
  "city_only (add_city states cbsa city idx) c =
     (if c \<noteq> city then city_only idx c
      else if city \<in> city_ambig idx then city_only idx c
      else if (case city_only idx city of Some v \<Rightarrow> v \<noteq> cbsa | None \<Rightarrow> False) then None
      else Some cbsa)"
  by (simp add: add_city_def Let_def)

lemma city_ambig_add_city:
  "c \<in> city_ambig (add_city states cbsa city idx) \<longleftrightarrow>
     c \<in> city_ambig idx \<or>
     (c = city \<and> (case city_only idx city of Some v \<Rightarrow> v \<noteq> cbsa | None \<Rightarrow> False))"
  by (auto simp: add_city_def Let_def)

lemma all_same_snoc:
  "all_same (ids @ [a]) \<longleftrightarrow> ids = [] \<or> (all_same ids \<and> a = hd ids)"
  by (cases ids) (auto simp: all_same_def)

lemma tables_of_events:
  "city_only (fold add_event evs empty_index) c =
     (let ids = map (\<lambda>e. snd (snd e)) (filter (\<lambda>e. fst e = c) evs)
      in if ids \<noteq> [] \<and> all_same ids then Some (hd ids) else None) \<and>
   (c \<in> city_ambig (fold add_event evs empty_index) \<longleftrightarrow>
     (let ids = map (\<lambda>e. snd (snd e)) (filter (\<lambda>e. fst e = c) evs)
      in ids \<noteq> [] \<and> \<not> all_same ids))"
proof (induction evs rule: rev_induct)
  case Nil
  then show ?case by (simp add: empty_index_def)
next
  case (snoc e evs)
  let ?idx = "fold add_event evs empty_index"
  let ?ids = "map (\<lambda>e. snd (snd e)) (filter (\<lambda>e. fst e = c) evs)"
  have o: "city_only ?idx c = (if ?ids \<noteq> [] \<and> all_same ?ids then Some (hd ?ids) else None)"
    and a: "c \<in> city_ambig ?idx \<longleftrightarrow> ?ids \<noteq> [] \<and> \<not> all_same ?ids"
    using snoc.IH by (simp_all add: Let_def)
  have f: "fold add_event (evs @ [e]) empty_index = add_city (fst (snd e)) (snd (snd e)) (fst e) ?idx"
    by (simp add: add_event_def)
  show ?case
  proof (cases "fst e = c")
    case False
    then have "map (\<lambda>e. snd (snd e)) (filter (\<lambda>e. fst e = c) (evs @ [e])) = ?ids" by simp
    moreover have "city_only (fold add_event (evs @ [e]) empty_index) c = city_only ?idx c"
      unfolding f city_only_add_city using False by simp
    moreover have "c \<in> city_ambig (fold add_event (evs @ [e]) empty_index) \<longleftrightarrow> c \<in> city_ambig ?idx"
      unfolding f city_ambig_add_city using False by auto
    ultimately show ?thesis using o a by (simp add: Let_def)
  next
    case True
    have i: "map (\<lambda>e. snd (snd e)) (filter (\<lambda>e. fst e = c) (evs @ [e])) = ?ids @ [snd (snd e)]"
      using True by simp
    have h: "?ids \<noteq> [] \<Longrightarrow> hd (?ids @ [snd (snd e)]) = hd ?ids" by simp
    show ?thesis
    proof (cases "?ids = []")
      case True
      then have "city_only ?idx c = None" "c \<notin> city_ambig ?idx" using o a by simp_all
      then show ?thesis
        unfolding f city_only_add_city city_ambig_add_city i Let_def all_same_snoc
        using True \<open>fst e = c\<close> by simp
    next
      case ne: False
      show ?thesis
      proof (cases "all_same ?ids")
        case True
        then have "city_only ?idx c = Some (hd ?ids)" "c \<notin> city_ambig ?idx" using o a ne by simp_all
        then show ?thesis
          unfolding f city_only_add_city city_ambig_add_city i Let_def all_same_snoc
          using True ne \<open>fst e = c\<close> by auto
      next
        case False
        then have "city_only ?idx c = None" "c \<in> city_ambig ?idx" using o a ne by simp_all
        then show ?thesis
          unfolding f city_only_add_city city_ambig_add_city i Let_def all_same_snoc
          using False ne \<open>fst e = c\<close> by auto
      qed
    qed
  qed
qed

lemma tables_of_census:
  "city_only (build_index census) c =
     (if city_ids census c \<noteq> [] \<and> all_same (city_ids census c)
      then Some (hd (city_ids census c)) else None)"
  "c \<in> city_ambig (build_index census) \<longleftrightarrow>
     city_ids census c \<noteq> [] \<and> \<not> all_same (city_ids census c)"
  unfolding build_index_events city_ids_def
  using tables_of_events[of "city_events census" c] by (simp_all add: Let_def)

text \<open>
  Claim C9. After the index is built from any Census table, every city token extracted from
  at least one region name is in exactly one of the table \<^verbatim>\<open>city_only\<close> and the set
  \<^verbatim>\<open>city_ambig\<close>, and a city token extracted from the names of regions with two distinct ids
  is in \<^verbatim>\<open>city_ambig\<close>.
\<close>

theorem city_token_partition:
  assumes "city_ids census city \<noteq> []"
  shows "(city \<in> dom (city_only (build_index census)) \<longleftrightarrow> city \<notin> city_ambig (build_index census)) \<and>
         ((\<exists>a \<in> set (city_ids census city). \<exists>b \<in> set (city_ids census city). a \<noteq> b)
            \<longrightarrow> city \<in> city_ambig (build_index census))"
proof -
  have "(\<exists>a \<in> set (city_ids census city). \<exists>b \<in> set (city_ids census city). a \<noteq> b)
      \<longrightarrow> \<not> all_same (city_ids census city)"
    unfolding all_same_def by metis
  then show ?thesis using assms by (auto simp: tables_of_census dom_def)
qed

lemma example_city_ids:
  "city_ids example_census ''springfield'' = [''44140'', ''44180'']"
  "city_ids example_census ''pittsburgh'' = [''38300'']"
  by (simp_all add: city_ids_def city_events_def metro_rows_def example_census_def parse_msa_def city_part_def state_part_def
      strip_metro_area_def Let_def is_space_def strip_def lower_def upper_def hyphen_or_slash_def)

theorem city_token_partition_witness:
  "city_ids example_census ''springfield'' \<noteq> [] \<and>
   city_ids example_census ''springfield'' = [''44140'', ''44180''] \<and>
   ''springfield'' \<in> city_ambig (build_index example_census) \<and>
   ''springfield'' \<notin> dom (city_only (build_index example_census)) \<and>
   city_only (build_index example_census) ''pittsburgh'' = Some ''38300'' \<and>
   ''pittsburgh'' \<notin> city_ambig (build_index example_census)"
proof -
  have n: "city_ids example_census ''springfield'' \<noteq> []" unfolding example_city_ids by simp
  have p: "city_only (build_index example_census) ''pittsburgh'' = Some ''38300''"
    "''pittsburgh'' \<notin> city_ambig (build_index example_census)"
    unfolding tables_of_census example_city_ids by (simp_all add: all_same_def)
  have "''44140'' \<noteq> ''44180''" by simp
  then have two: "\<exists>a \<in> set (city_ids example_census ''springfield'').
      \<exists>b \<in> set (city_ids example_census ''springfield''). a \<noteq> b"
    unfolding example_city_ids by (intro bexI[of _ "''44140''"] bexI[of _ "''44180''"]) simp_all
  have s: "''springfield'' \<in> city_ambig (build_index example_census)"
    "''springfield'' \<notin> dom (city_only (build_index example_census))"
    using city_token_partition[OF n] two by blast+
  show ?thesis using n p s example_city_ids(1) by simp
qed

lemma cons_head_nonempty: "cons_head c xs \<noteq> []"
  by (cases xs) auto

lemma split_on_nonempty: "split_on sep s \<noteq> []"
  by (induction s) (auto simp: cons_head_nonempty)

lemma split_uza_no_hyphen: "CHR ''-'' \<notin> set s \<Longrightarrow> split_uza s = split_on hyphen_or_slash s"
  by (induction s rule: split_uza.induct) (auto simp: hyphen_or_slash_def)

lemma setdefault_fold:
  "fold (\<lambda>state. setdefault (city, state) cbsa) states m k =
     (case m k of Some v \<Rightarrow> Some v
      | None \<Rightarrow> if fst k = city \<and> snd k \<in> set states then Some cbsa else None)"
proof (induction states arbitrary: m)
  case Nil
  then show ?case by (simp split: option.splits)
next
  case (Cons s states)
  show ?case
    unfolding fold_simps Cons.IH
    by (cases k) (auto simp: setdefault_def split: option.splits)
qed

lemma city_state_add_city:
  "city_state (add_city states cbsa city idx) k =
     (case city_state idx k of Some v \<Rightarrow> Some v
      | None \<Rightarrow> if fst k = city \<and> snd k \<in> set states then Some cbsa else None)"
  by (auto simp: add_city_def Let_def setdefault_fold split: option.splits)

lemma city_state_cities:
  "city_state (fold (add_city states cbsa) cities idx) k =
     (case city_state idx k of Some v \<Rightarrow> Some v
      | None \<Rightarrow> if fst k \<in> set cities \<and> snd k \<in> set states then Some cbsa else None)"
proof (induction cities arbitrary: idx)
  case Nil
  then show ?case by (simp split: option.splits)
next
  case (Cons c cities)
  show ?case
    unfolding fold_simps Cons.IH city_state_add_city
    by (auto split: option.splits)
qed

lemma city_state_add_row:
  "city_state (add_row r idx) k =
     (case city_state idx k of Some v \<Rightarrow> Some v
      | None \<Rightarrow> if k \<in> set (row_keys (fst r)) then Some (snd r) else None)"
proof -
  have "k \<in> set (row_keys (fst r)) \<longleftrightarrow>
      fst k \<in> set (fst (parse_msa (fst r))) \<and> snd k \<in> set (snd (parse_msa (fst r)))"
    by (cases k) (simp add: row_keys_def)
  then show ?thesis
    by (auto simp: add_row_def case_prod_beta city_state_cities split: option.splits)
qed

lemma city_state_rows:
  "city_state (fold add_row rows empty_index) k =
     (case filter (\<lambda>r. k \<in> set (row_keys (fst r))) rows of
        [] \<Rightarrow> None | r # rest \<Rightarrow> Some (snd r))"
proof (induction rows rule: rev_induct)
  case Nil
  then show ?case by (simp add: empty_index_def)
next
  case (snoc r rows)
  show ?case
  proof (cases "filter (\<lambda>r. k \<in> set (row_keys (fst r))) rows")
    case Nil
    then show ?thesis using snoc.IH by (simp add: city_state_add_row)
  next
    case (Cons a list)
    then show ?thesis using snoc.IH by (simp add: city_state_add_row)
  qed
qed

lemma city_state_unshared:
  assumes row: "(name, cbsa) \<in> set (metro_rows census)"
    and key: "k \<in> set (row_keys name)"
    and un: "\<forall>r \<in> set (metro_rows census). k \<in> set (row_keys (fst r)) \<longrightarrow> snd r = cbsa"
  shows "city_state (build_index census) k = Some cbsa"
proof -
  let ?f = "filter (\<lambda>r. k \<in> set (row_keys (fst r))) (metro_rows census)"
  have "(name, cbsa) \<in> set ?f" using row key by simp
  then obtain a rest where f: "?f = a # rest" by (cases ?f) auto
  then have "a \<in> set ?f" by simp
  then have "snd a = cbsa" using un by simp
  then show ?thesis unfolding build_index_def city_state_rows f by simp
qed

lemma first_key_in_row:
  assumes hy: "CHR ''-'' \<notin> set (city_part (strip_metro_area name))"
    and st: "uza_states (strip_metro_area name) \<noteq> []"
  shows "first_key (strip_metro_area name) \<in> set (row_keys name)"
proof -
  let ?clean = "strip_metro_area name"
  have c: "uza_cities ?clean = fst (parse_msa name)"
    by (simp add: uza_cities_def parse_msa_def Let_def split_uza_no_hyphen[OF hy])
  have "uza_cities ?clean \<noteq> []" by (simp add: uza_cities_def split_uza_no_hyphen[OF hy] split_on_nonempty)
  then have a: "hd (uza_cities ?clean) \<in> set (fst (parse_msa name))" unfolding c by simp
  have "hd (uza_states ?clean) \<in> set (uza_states ?clean)" using st by simp
  moreover have "set (uza_states ?clean) \<subseteq> set (snd (parse_msa name))"
    by (auto simp: uza_states_def parse_msa_def Let_def)
  ultimately have b: "hd (uza_states ?clean) \<in> set (snd (parse_msa name))" by blast
  show ?thesis using a b by (simp add: first_key_def row_keys_def)
qed

lemma first_hit_first:
  "ks \<noteq> [] \<Longrightarrow> m (hd ks) = Some v \<Longrightarrow> v \<noteq> [] \<Longrightarrow> first_hit m ks = Some v"
  by (cases ks) auto

lemma product_hd: "xs \<noteq> [] \<Longrightarrow> ys \<noteq> [] \<Longrightarrow>
  List.product xs ys \<noteq> [] \<and> hd (List.product xs ys) = (hd xs, hd ys)"
  by (cases xs; cases ys) auto

lemma empty_name_states: "uza_states [] = []"
  by (simp add: uza_states_def state_part_def strip_def Let_def)

text \<open>
  Claim C4, amended. For every region of the table the index is built from, with a non-empty
  id, whose name without the suffix \<^verbatim>\<open>Metro Area\<close> has no hyphen in its city part, has a
  non-empty state token and does not contain \<^verbatim>\<open>non-uza\<close>, and whose first city and state
  key is not a key of a region with another id: resolving that name (without the suffix)
  returns the id of the region. The resolver rejects names that contain \<^verbatim>\<open>non-uza\<close> and
  returns non-empty ids only; \<open>shared_key_example\<close> shows what a shared key does.
\<close>

theorem resolver_round_trip:
  assumes row: "(name, cbsa) \<in> set (metro_rows census)"
    and id: "cbsa \<noteq> []"
    and uza: "\<not> contains ''non-uza'' (lower (strip_metro_area name))"
    and hy: "CHR ''-'' \<notin> set (city_part (strip_metro_area name))"
    and st: "uza_states (strip_metro_area name) \<noteq> []"
    and un: "\<forall>r \<in> set (metro_rows census).
               first_key (strip_metro_area name) \<in> set (row_keys (fst r)) \<longrightarrow> snd r = cbsa"
  shows "uza_to_cbsa (Some (build_index census)) (strip_metro_area name) = cbsa"
proof -
  let ?clean = "strip_metro_area name"
  have ne: "?clean \<noteq> []" using st empty_name_states by auto
  have key: "first_key ?clean \<in> set (row_keys name)" by (rule first_key_in_row[OF hy st])
  have v: "city_state (build_index census) (first_key ?clean) = Some cbsa"
    by (rule city_state_unshared[OF row key un])
  have cn: "uza_cities ?clean \<noteq> []"
    by (simp add: uza_cities_def split_uza_no_hyphen[OF hy] split_on_nonempty)
  have p: "List.product (uza_cities ?clean) (uza_states ?clean) \<noteq> []"
    and h: "hd (List.product (uza_cities ?clean) (uza_states ?clean)) = first_key ?clean"
    using product_hd[OF cn st] by (simp_all add: first_key_def)
  have "first_hit (city_state (build_index census))
      (List.product (uza_cities ?clean) (uza_states ?clean)) = Some cbsa"
    using p _ id by (rule first_hit_first) (simp add: h v)
  then show ?thesis using ne uza by (simp add: uza_to_cbsa_def)
qed

lemmas resolver_defs = parse_msa_def city_part_def state_part_def strip_metro_area_def Let_def
  is_space_def strip_def lower_def upper_def hyphen_or_slash_def uza_cities_def uza_states_def

lemma dallas_parse:
  "parse_msa ''Dallas-Fort Worth-Arlington, TX Metro Area'' =
     ([''dallas'', ''fort worth'', ''arlington''], [''TX''])"
  by (simp add: resolver_defs)

lemma dallas_clean:
  "strip_metro_area ''Dallas-Fort Worth-Arlington, TX Metro Area'' = ''Dallas-Fort Worth-Arlington, TX''"
  by (simp add: resolver_defs)

lemma dallas_tokens:
  "uza_cities ''Dallas-Fort Worth-Arlington, TX'' = [''dallas-fort worth-arlington'']"
  "uza_states ''Dallas-Fort Worth-Arlington, TX'' = [''TX'']"
  "uza_cities ''Dallas-Fort Worth-Arlington, TX Metro Area'' = [''dallas-fort worth-arlington'']"
  "uza_states ''Dallas-Fort Worth-Arlington, TX Metro Area'' = [''TX METRO AREA'']"
  by (simp_all add: resolver_defs)

lemma dallas_rows: "metro_rows dallas_census = dallas_census"
  by (simp add: metro_rows_def dallas_census_def lower_def)

lemma dallas_city_state:
  "city_state (build_index dallas_census) (''dallas-fort worth-arlington'', s) = None"
  unfolding build_index_def city_state_rows dallas_rows
  by (simp add: dallas_census_def row_keys_def dallas_parse)

lemma dallas_city_only:
  "city_only (build_index dallas_census) ''dallas-fort worth-arlington'' = None"
proof -
  have "city_ids dallas_census ''dallas-fort worth-arlington'' = []"
    unfolding city_ids_def city_events_def dallas_rows
    by (simp add: dallas_census_def dallas_parse)
  then show ?thesis by (simp add: tables_of_census)
qed

text \<open>
  Claim C4 as stated fails: \<^verbatim>\<open>_uza_to_cbsa\<close> is written for the names of urbanized areas,
  whose cities are separated by double hyphens, and splits the city part at double hyphens
  and slashes only, while the index is built from Census names split at single hyphens. For
  the region \<^verbatim>\<open>Dallas-Fort Worth-Arlington, TX Metro Area\<close> the only city token the resolver
  reads is \<^verbatim>\<open>dallas-fort worth-arlington\<close>, which is no key of the index: the name resolves
  to the empty string, with and without the suffix \<^verbatim>\<open>Metro Area\<close>.
\<close>

theorem resolver_round_trip_counterexample:
  "(''Dallas-Fort Worth-Arlington, TX Metro Area'', ''19100'') \<in> set (metro_rows dallas_census) \<and>
   strip_metro_area ''Dallas-Fort Worth-Arlington, TX Metro Area''
     = ''Dallas-Fort Worth-Arlington, TX'' \<and>
   uza_to_cbsa (Some (build_index dallas_census)) ''Dallas-Fort Worth-Arlington, TX'' = [] \<and>
   uza_to_cbsa (Some (build_index dallas_census)) ''Dallas-Fort Worth-Arlington, TX Metro Area'' = [] \<and>
   uza_to_cbsa (Some (build_index dallas_census)) ''Dallas-Fort Worth-Arlington, TX'' \<noteq> ''19100''"
proof -
  have a: "uza_to_cbsa (Some (build_index dallas_census)) ''Dallas-Fort Worth-Arlington, TX'' = []"
    unfolding uza_to_cbsa_def dallas_tokens
    by (simp add: dallas_city_state dallas_city_only lower_def)
  have b: "uza_to_cbsa (Some (build_index dallas_census)) ''Dallas-Fort Worth-Arlington, TX Metro Area'' = []"
    unfolding uza_to_cbsa_def dallas_tokens
    by (simp add: dallas_city_state dallas_city_only lower_def)
  have c: "(''Dallas-Fort Worth-Arlington, TX Metro Area'', ''19100'') \<in> set (metro_rows dallas_census)"
    unfolding dallas_rows by (simp add: dallas_census_def)
  show ?thesis using a b c dallas_clean by simp
qed

text \<open>
  The key of a region that a region earlier in the table has entered keeps the id of the
  earlier region (\<^verbatim>\<open>setdefault\<close>): the name of the later region resolves to the earlier id.
\<close>

lemma shared_key_example:
  "(''Springfield/Holyoke, MA Metro Area'', ''99999'') \<in> set (metro_rows twin_census) \<and>
   strip_metro_area ''Springfield/Holyoke, MA Metro Area'' = ''Springfield/Holyoke, MA'' \<and>
   uza_to_cbsa (Some (build_index twin_census)) ''Springfield/Holyoke, MA'' = ''44140''"
proof -
  have r: "metro_rows twin_census = twin_census"
    by (simp add: metro_rows_def twin_census_def lower_def)
  have c: "strip_metro_area ''Springfield/Holyoke, MA Metro Area'' = ''Springfield/Holyoke, MA''"
    by (simp add: resolver_defs)
  have t: "uza_cities ''Springfield/Holyoke, MA'' = [''springfield'', ''holyoke'']"
    "uza_states ''Springfield/Holyoke, MA'' = [''MA'']"
    by (simp_all add: resolver_defs)
  have k: "row_keys ''Springfield, MA Metro Area'' = [(''springfield'', ''MA'')]"
    by (simp add: row_keys_def resolver_defs)
  have "city_state (build_index twin_census) (''springfield'', ''MA'') = Some ''44140''"
    unfolding build_index_def city_state_rows r by (simp add: twin_census_def k)
  then have "uza_to_cbsa (Some (build_index twin_census)) ''Springfield/Holyoke, MA'' = ''44140''"
    unfolding uza_to_cbsa_def t by (simp add: lower_def)
  then show ?thesis using c unfolding r by (simp add: twin_census_def)
qed

lemma springfield_rows: "metro_rows example_census = example_census"
  by (simp add: metro_rows_def example_census_def lower_def)

lemma springfield_clean:
  "strip_metro_area ''Springfield, MA Metro Area'' = ''Springfield, MA''"
  by (simp add: resolver_defs)

lemma springfield_tokens:
  "city_part ''Springfield, MA'' = ''Springfield''"
  "uza_cities ''Springfield, MA'' = [''springfield'']"
  "uza_states ''Springfield, MA'' = [''MA'']"
  by (simp_all add: resolver_defs)

lemma example_row_keys:
  "row_keys ''Springfield, MA Metro Area'' = [(''springfield'', ''MA'')]"
  "row_keys ''Pittsburgh, PA Metro Area'' = [(''pittsburgh'', ''PA'')]"
  "row_keys ''Springfield, MO Metro Area'' = [(''springfield'', ''MO'')]"
  by (simp_all add: row_keys_def resolver_defs)

lemma springfield_unshared:
  "filter (\<lambda>r. first_key ''Springfield, MA'' \<in> set (row_keys (fst r))) (metro_rows example_census)
     = [(''Springfield, MA Metro Area'', ''44140'')]"
  unfolding springfield_rows first_key_def springfield_tokens
  by (simp add: example_census_def example_row_keys)

theorem resolver_round_trip_witness:
  "(''Springfield, MA Metro Area'', ''44140'') \<in> set (metro_rows example_census) \<and>
   ''44140'' \<noteq> [] \<and>
   strip_metro_area ''Springfield, MA Metro Area'' = ''Springfield, MA'' \<and>
   \<not> contains ''non-uza'' (lower ''Springfield, MA'') \<and>
   CHR ''-'' \<notin> set (city_part ''Springfield, MA'') \<and>
   uza_states ''Springfield, MA'' \<noteq> [] \<and>
   filter (\<lambda>r. first_key ''Springfield, MA'' \<in> set (row_keys (fst r))) (metro_rows example_census)
     = [(''Springfield, MA Metro Area'', ''44140'')] \<and>
   ''springfield'' \<in> city_ambig (build_index example_census) \<and>
   uza_to_cbsa (Some (build_index example_census)) ''Springfield, MA'' = ''44140''"
proof -
  have row: "(''Springfield, MA Metro Area'', ''44140'') \<in> set (metro_rows example_census)"
    unfolding springfield_rows by (simp add: example_census_def)
  have id: "''44140'' \<noteq> []" by simp
  have uza: "\<not> contains ''non-uza'' (lower (strip_metro_area ''Springfield, MA Metro Area''))"
    unfolding springfield_clean by (simp add: lower_def)
  have hy: "CHR ''-'' \<notin> set (city_part (strip_metro_area ''Springfield, MA Metro Area''))"
    unfolding springfield_clean springfield_tokens by simp
  have st: "uza_states (strip_metro_area ''Springfield, MA Metro Area'') \<noteq> []"
    unfolding springfield_clean springfield_tokens by simp
  have un: "\<forall>r \<in> set (metro_rows example_census).
      first_key (strip_metro_area ''Springfield, MA Metro Area'') \<in> set (row_keys (fst r))
        \<longrightarrow> snd r = ''44140''"
  proof (intro ballI impI)
    fix r
    assume "r \<in> set (metro_rows example_census)"
      and "first_key (strip_metro_area ''Springfield, MA Metro Area'') \<in> set (row_keys (fst r))"
    then have "r \<in> set (filter (\<lambda>r. first_key ''Springfield, MA'' \<in> set (row_keys (fst r)))
        (metro_rows example_census))"
      unfolding springfield_clean by simp
    then show "snd r = ''44140''" unfolding springfield_unshared by simp
  qed
  have amb: "''springfield'' \<in> city_ambig (build_index example_census)"
    unfolding tables_of_census example_city_ids by (simp add: all_same_def)
  show ?thesis
    using row id uza hy st springfield_unshared amb
      resolver_round_trip[OF row id uza hy st un]
    unfolding springfield_clean by simp
qed

end
